theory Spec2Isabelle
  imports Complex_Main
begin

section \<open>Calendar arithmetic of the platform's Date object\<close>

text \<open>
  The program builds every date with \<^verbatim>\<open>new Date(year, month, day)\<close> and reads it back with
  \<^verbatim>\<open>getFullYear\<close>, \<^verbatim>\<open>getMonth\<close>, \<^verbatim>\<open>getDate\<close> and \<^verbatim>\<open>getDay\<close>. These are functions of the
  JavaScript runtime, not of the repository; they are modelled here after the ECMAScript
  definitions (DaysInYear, DayFromYear, YearFromTime, MonthFromTime, DateFromTime, WeekDay,
  MakeDay), on day numbers: day 0 is 1970-01-01, months count from 0, weekdays from Sunday = 0.
  JavaScript numbers are modelled as unbounded integers, with \<open>None\<close> for NaN.
\<close>

definition DaysInYear :: "int \<Rightarrow> int" where
  "DaysInYear y =
     (if y mod 4 \<noteq> 0 then 365
      else if y mod 100 \<noteq> 0 then 366
      else if y mod 400 \<noteq> 0 then 365
      else 366)"

definition DayFromYear :: "int \<Rightarrow> int" where
  "DayFromYear y =
     365 * (y - 1970) + (y - 1969) div 4 - (y - 1901) div 100 + (y - 1601) div 400"

text \<open>
  ECMAScript takes YearFromTime as the largest year whose first day is not after the given
  day. The executable version below estimates the year from the mean length of a Gregorian
  year and corrects the estimate by at most one; \<open>YearFromDay_bracket\<close> proves that the
  result is that largest year.
\<close>

definition YearFromDay :: "int \<Rightarrow> int" where
  "YearFromDay n =
     (let y0 = 1970 + (400 * n) div 146097
      in if DayFromYear (y0 + 1) \<le> n then y0 + 1
         else if DayFromYear y0 \<le> n then y0
         else y0 - 1)"

definition InLeapYear :: "int \<Rightarrow> int" where
  "InLeapYear y = (if DaysInYear y = 366 then 1 else 0)"

definition DayWithinYear :: "int \<Rightarrow> int" where
  "DayWithinYear n = n - DayFromYear (YearFromDay n)"

definition MonthFromDay :: "int \<Rightarrow> int" where
  "MonthFromDay n =
     (let d = DayWithinYear n;
          L = InLeapYear (YearFromDay n)
      in if d < 31 then 0
         else if d < 59 + L then 1
         else if d < 90 + L then 2
         else if d < 120 + L then 3
         else if d < 151 + L then 4
         else if d < 181 + L then 5
         else if d < 212 + L then 6
         else if d < 243 + L then 7
         else if d < 273 + L then 8
         else if d < 304 + L then 9
         else if d < 334 + L then 10
         else 11)"

definition DateFromDay :: "int \<Rightarrow> int" where
  "DateFromDay n =
     (let d = DayWithinYear n;
          L = InLeapYear (YearFromDay n);
          m = MonthFromDay n
      in if m = 0 then d + 1
         else if m = 1 then d - 30
         else if m = 2 then d - 58 - L
         else if m = 3 then d - 89 - L
         else if m = 4 then d - 119 - L
         else if m = 5 then d - 150 - L
         else if m = 6 then d - 180 - L
         else if m = 7 then d - 211 - L
         else if m = 8 then d - 242 - L
         else if m = 9 then d - 272 - L
         else if m = 10 then d - 303 - L
         else d - 333 - L)"

definition WeekDay :: "int \<Rightarrow> int" where
  "WeekDay n = (n + 4) mod 7"

text \<open>The day within its year on which month \<open>m\<close> (0 to 11) of year \<open>y\<close> begins.\<close>

definition MonthStart :: "int \<Rightarrow> int \<Rightarrow> int" where
  "MonthStart y m =
     (let L = InLeapYear y
      in if m = 0 then 0
         else if m = 1 then 31
         else if m = 2 then 59 + L
         else if m = 3 then 90 + L
         else if m = 4 then 120 + L
         else if m = 5 then 151 + L
         else if m = 6 then 181 + L
         else if m = 7 then 212 + L
         else if m = 8 then 243 + L
         else if m = 9 then 273 + L
         else if m = 10 then 304 + L
         else 334 + L)"

text \<open>
  MakeDay carries a month outside 0 to 11 into the year, and a day outside the month into
  the neighbouring months: \<^verbatim>\<open>new Date(y, m + 1, 0)\<close> is the last day of month \<open>m\<close>.
\<close>

definition MakeDay :: "int \<Rightarrow> int \<Rightarrow> int \<Rightarrow> int" where
  "MakeDay year month date =
     (let ym = year + month div 12;
          mn = month mod 12
      in DayFromYear ym + MonthStart ym mn + date - 1)"

text \<open>
  The Gregorian calendar as a reference, stated without the day arithmetic above: the length
  of month \<open>m\<close> (0 to 11) of year \<open>y\<close>.
\<close>

definition days_in_month :: "int \<Rightarrow> int \<Rightarrow> int" where
  "days_in_month y m =
     (if m = 1 then (if y mod 4 = 0 \<and> (y mod 100 \<noteq> 0 \<or> y mod 400 = 0) then 29 else 28)
      else if m = 3 \<or> m = 5 \<or> m = 8 \<or> m = 10 then 30
      else 31)"

subsection \<open>Date objects at local midnight\<close>

text \<open>
  Every Date the program holds is built as a local midnight, so a Date is modelled by its
  local calendar day; \<open>InvalidDate\<close> is the Date whose time value is NaN. The time value
  itself (milliseconds since the epoch in UTC), which \<^verbatim>\<open>db - da\<close> and \<^verbatim>\<open><\<close> read, depends on
  the time zone of the machine: \<open>tz n\<close> is the offset of local time from UTC, in
  milliseconds, that the runtime applies to the local midnight of day \<open>n\<close>. It changes with
  \<open>n\<close> where the zone observes daylight-saving time. The getters read the local day back,
  which is right as long as a change of offset moves local time by less than a day.
\<close>

type_synonym tz = "int \<Rightarrow> int"

datatype jsdate = InvalidDate | LocalDay int

definition msPerDay :: int where
  "msPerDay = 86400000"

definition valueOf :: "tz \<Rightarrow> int \<Rightarrow> int" where
  "valueOf tz n = n * msPerDay - tz n"

text \<open>
  \<^verbatim>\<open>new Date(year, month, date)\<close>: a NaN argument gives the invalid Date, a year from 0 to
  99 means 1900 + year, and a time value beyond 8.64e15 ms is clipped to NaN.
\<close>

definition NewDate :: "tz \<Rightarrow> int option \<Rightarrow> int option \<Rightarrow> int option \<Rightarrow> jsdate" where
  "NewDate tz year month date =
     (case (year, month, date) of
        (Some y, Some m, Some dt) \<Rightarrow>
          (let yr = (if 0 \<le> y \<and> y \<le> 99 then 1900 + y else y);
               n = MakeDay yr m dt
           in if \<bar>valueOf tz n\<bar> \<le> 8640000000000000 then LocalDay n else InvalidDate)
      | _ \<Rightarrow> InvalidDate)"

definition getFullYear :: "jsdate \<Rightarrow> int option" where
  "getFullYear d = (case d of InvalidDate \<Rightarrow> None | LocalDay n \<Rightarrow> Some (YearFromDay n))"

definition getMonth :: "jsdate \<Rightarrow> int option" where
  "getMonth d = (case d of InvalidDate \<Rightarrow> None | LocalDay n \<Rightarrow> Some (MonthFromDay n))"

definition getDate :: "jsdate \<Rightarrow> int option" where
  "getDate d = (case d of InvalidDate \<Rightarrow> None | LocalDay n \<Rightarrow> Some (DateFromDay n))"

definition getDay :: "jsdate \<Rightarrow> int option" where
  "getDay d = (case d of InvalidDate \<Rightarrow> None | LocalDay n \<Rightarrow> Some (WeekDay n))"

text \<open>Comparison of numbers and of Dates: false as soon as one side is NaN.\<close>

definition js_lt :: "int option \<Rightarrow> int option \<Rightarrow> bool" where
  "js_lt a b = (case (a, b) of (Some x, Some y) \<Rightarrow> x < y | _ \<Rightarrow> False)"

definition js_le :: "int option \<Rightarrow> int option \<Rightarrow> bool" where
  "js_le a b = (case (a, b) of (Some x, Some y) \<Rightarrow> x \<le> y | _ \<Rightarrow> False)"

definition timeValue :: "tz \<Rightarrow> jsdate \<Rightarrow> int option" where
  "timeValue tz d = (case d of InvalidDate \<Rightarrow> None | LocalDay n \<Rightarrow> Some (valueOf tz n))"

definition date_lt :: "tz \<Rightarrow> jsdate \<Rightarrow> jsdate \<Rightarrow> bool" where
  "date_lt tz a b = js_lt (timeValue tz a) (timeValue tz b)"

text \<open>
  \<^verbatim>\<open>Math.round(p / q)\<close> for integers \<open>p\<close> and \<open>q > 0\<close>: the nearest integer, a half rounded
  up. The quotient is taken exactly; \<open>round_div_floor\<close> relates it to the real quotient.
\<close>

definition round_div :: "int \<Rightarrow> int \<Rightarrow> int" where
  "round_div p q = (2 * p + q) div (2 * q)"

section \<open>Strings\<close>

definition digit_char :: "nat \<Rightarrow> char" where
  "digit_char d = ''0123456789'' ! d"

definition digit_val :: "char \<Rightarrow> nat option" where
  "digit_val c = map_of (zip ''0123456789'' [0, 1, 2, 3, 4, 5, 6, 7, 8, 9]) c"

definition is_digit :: "char \<Rightarrow> bool" where
  "is_digit c = (digit_val c \<noteq> None)"

fun show_nat :: "nat \<Rightarrow> string" where
  "show_nat n = (if n < 10 then [digit_char n] else show_nat (n div 10) @ [digit_char (n mod 10)])"

declare show_nat.simps [simp del]

text \<open>\<^verbatim>\<open>String(x)\<close> and template interpolation of a number.\<close>

definition String :: "int option \<Rightarrow> string" where
  "String x =
     (case x of
        None \<Rightarrow> ''NaN''
      | Some i \<Rightarrow> if i < 0 then CHR ''-'' # show_nat (nat (- i)) else show_nat (nat i))"

text \<open>\<^verbatim>\<open>s.padStart(n, c)\<close> for a one-character pad string.\<close>

definition padStart :: "nat \<Rightarrow> char \<Rightarrow> string \<Rightarrow> string" where
  "padStart n c s = replicate (n - length s) c @ s"

text \<open>\<^verbatim>\<open>s.split(sep)\<close> for a one-character separator: the empty string splits into one empty part.\<close>

fun split :: "char \<Rightarrow> string \<Rightarrow> string list" where
  "split sep [] = [[]]"
| "split sep (c # cs) =
     (if c = sep then [] # split sep cs
      else (case split sep cs of [] \<Rightarrow> [[c]] | p # ps \<Rightarrow> (c # p) # ps))"

text \<open>
  \<^verbatim>\<open>Number(s)\<close> on the parts of a date string: a run of decimal digits is its value and the
  empty string is 0. Every other string is taken as NaN here; JavaScript also reads signs,
  fractions, exponents, radix prefixes and surrounding white space, none of which occur in
  the strings this program builds.
\<close>

definition Number :: "string \<Rightarrow> int option" where
  "Number s =
     (if list_all is_digit s
      then Some (int (foldl (\<lambda>a c. 10 * a + the (digit_val c)) 0 s))
      else None)"

section \<open>Date utilities of the application\<close>

text \<open>\<^verbatim>\<open>formatYMD\<close> takes a string, which it returns as it is, or a Date.\<close>

datatype ymd_arg = Str string | DateObj jsdate

definition formatYMD :: "ymd_arg \<Rightarrow> string" where
  "formatYMD d =
     (case d of
        Str s \<Rightarrow> s
      | DateObj dt \<Rightarrow>
          (let yyyy = getFullYear dt;
               mm = padStart 2 (CHR ''0'') (String (map_option (\<lambda>m. m + 1) (getMonth dt)));
               dd = padStart 2 (CHR ''0'') (String (getDate dt))
           in String yyyy @ ''-'' @ mm @ ''-'' @ dd))"

text \<open>
  \<^verbatim>\<open>const [y, m, d] = s.split("-").map(Number)\<close>: parts beyond the third are dropped, a
  missing part is \<^verbatim>\<open>undefined\<close> and makes the Date invalid.
\<close>

definition parseYMD :: "tz \<Rightarrow> string \<Rightarrow> jsdate" where
  "parseYMD tz s =
     (case map Number (split (CHR ''-'') s) of
        y # m # d # _ \<Rightarrow> NewDate tz y (map_option (\<lambda>m. m - 1) m) d
      | _ \<Rightarrow> InvalidDate)"

definition daysBetween :: "tz \<Rightarrow> string \<Rightarrow> string \<Rightarrow> int option" where
  "daysBetween tz a b =
     (let da = parseYMD tz a;
          db = parseYMD tz b
      in case (timeValue tz db, timeValue tz da) of
           (Some tb, Some ta) \<Rightarrow> Some (round_div (tb - ta) (24 * 3600 * 1000))
         | _ \<Rightarrow> None)"

definition rangesOverlap :: "tz \<Rightarrow> string \<Rightarrow> string \<Rightarrow> string \<Rightarrow> string \<Rightarrow> bool" where
  "rangesOverlap tz aStart aEnd bStart bEnd =
     (\<not> (date_lt tz (parseYMD tz aEnd) (parseYMD tz bStart)
         \<or> date_lt tz (parseYMD tz bEnd) (parseYMD tz aStart)))"

section \<open>Calendar grid builder\<close>

text \<open>
  \<^verbatim>\<open>monthDays\<close> is computed from the view cursor \<^verbatim>\<open>viewYear\<close>, \<^verbatim>\<open>viewMonth\<close>. A slot of a
  week row holds a date string or \<^verbatim>\<open>null\<close> (\<open>None\<close>). \<open>day_cell\<close> is the expression
  \<^verbatim>\<open>formatYMD(new Date(viewYear, viewMonth, dayCounter))\<close> that fills a slot.
\<close>

type_synonym slot = "string option"

definition day_cell :: "tz \<Rightarrow> int \<Rightarrow> int \<Rightarrow> int \<Rightarrow> slot" where
  "day_cell tz viewYear viewMonth dayCounter =
     Some (formatYMD (DateObj (NewDate tz (Some viewYear) (Some viewMonth) (Some dayCounter))))"

text \<open>
  The first row: \<^verbatim>\<open>for (let i = 0; i < 7; i++)\<close>, leaving \<^verbatim>\<open>null\<close> while
  \<^verbatim>\<open>i < firstWeekday\<close>. The state of the loop is the row and \<^verbatim>\<open>dayCounter\<close>.
\<close>

function first_week ::
  "tz \<Rightarrow> int \<Rightarrow> int \<Rightarrow> int option \<Rightarrow> nat \<Rightarrow> slot list \<times> int \<Rightarrow> slot list \<times> int" where
  "first_week tz y m firstWeekday i (week, dayCounter) =
     (if i < 7 then
        (if js_lt (Some (int i)) firstWeekday
         then first_week tz y m firstWeekday (i + 1) (week[i := None], dayCounter)
         else first_week tz y m firstWeekday (i + 1)
                (week[i := day_cell tz y m dayCounter], dayCounter + 1))
      else (week, dayCounter))"
  by pat_completeness auto
termination
  by (relation "measure (\<lambda>(tz, y, m, fw, i, s). 7 - i)") auto

text \<open>
  A later row: \<^verbatim>\<open>for (let i = 0; i < 7 && dayCounter <= daysInMonth; i++)\<close> over a row created
  as \<^verbatim>\<open>new Array(7).fill(null)\<close>.
\<close>

function fill_week ::
  "tz \<Rightarrow> int \<Rightarrow> int \<Rightarrow> int option \<Rightarrow> nat \<Rightarrow> slot list \<times> int \<Rightarrow> slot list \<times> int" where
  "fill_week tz y m daysInMonth i (w, dayCounter) =
     (if i < 7 \<and> js_le (Some dayCounter) daysInMonth
      then fill_week tz y m daysInMonth (i + 1) (w[i := day_cell tz y m dayCounter], dayCounter + 1)
      else (w, dayCounter))"
  by pat_completeness auto
termination
  by (relation "measure (\<lambda>(tz, y, m, dmax, i, s). 7 - i)") auto

text \<open>\<^verbatim>\<open>while (dayCounter <= daysInMonth)\<close>: each round appends one row.\<close>

function weeks_loop ::
  "tz \<Rightarrow> int \<Rightarrow> int \<Rightarrow> int option \<Rightarrow> slot list list \<times> int \<Rightarrow> slot list list" where
  "weeks_loop tz y m daysInMonth (weeks, dayCounter) =
     (if js_le (Some dayCounter) daysInMonth
      then (case fill_week tz y m daysInMonth 0 (replicate 7 None, dayCounter) of
              (w, dayCounter') \<Rightarrow> weeks_loop tz y m daysInMonth (weeks @ [w], dayCounter'))
      else weeks)"
  by pat_completeness auto
termination
proof (relation "measure (\<lambda>(tz, y, m, dmax, weeks, dc). case dmax of None \<Rightarrow> 0 | Some d \<Rightarrow> nat (d + 1 - dc))")
  show "wf (measure (\<lambda>(tz, y, m, dmax, weeks, dc). case dmax of None \<Rightarrow> 0 | Some d \<Rightarrow> nat (d + 1 - dc)))"
    by simp
next
  fix tz :: tz and y m :: int and daysInMonth :: "int option" and weeks :: "slot list list"
    and dayCounter :: int and w :: "slot list" and dayCounter' :: int
  assume le: "js_le (Some dayCounter) daysInMonth"
    and w: "(w, dayCounter') = fill_week tz y m daysInMonth 0 (replicate 7 None, dayCounter)"
  have mono: "dc \<le> snd (fill_week tz y m daysInMonth i (r, dc))" for i r dc
  proof (induction tz y m daysInMonth i "(r, dc)" arbitrary: r dc rule: fill_week.induct)
    case (1 tz y m daysInMonth i w dayCounter)
    show ?case
    proof (cases "i < 7 \<and> js_le (Some dayCounter) daysInMonth")
      case True
      then show ?thesis
        using "1.hyps" [OF True] by (simp add: fill_week.simps [of _ _ _ _ i])
    next
      case False
      then show ?thesis by (simp add: fill_week.simps [of _ _ _ _ i])
    qed
  qed
  have "fill_week tz y m daysInMonth 0 (replicate 7 None, dayCounter)
      = fill_week tz y m daysInMonth 1 ((replicate 7 None)[0 := day_cell tz y m dayCounter], dayCounter + 1)"
    using le by (simp add: fill_week.simps [of _ _ _ _ 0])
  then have "dayCounter + 1 \<le> dayCounter'"
    using mono [of "dayCounter + 1" 1 "(replicate 7 None)[0 := day_cell tz y m dayCounter]"] w
    by (metis snd_conv)
  moreover obtain d where "daysInMonth = Some d" "dayCounter \<le> d"
    using le by (cases daysInMonth) (simp_all add: js_le_def)
  ultimately show "((tz, y, m, daysInMonth, weeks @ [w], dayCounter'), tz, y, m, daysInMonth, weeks, dayCounter)
      \<in> measure (\<lambda>(tz, y, m, dmax, weeks, dc). case dmax of None \<Rightarrow> 0 | Some d \<Rightarrow> nat (d + 1 - dc))"
    by simp
qed

declare first_week.simps [simp del] fill_week.simps [simp del] weeks_loop.simps [simp del]

definition monthDays :: "tz \<Rightarrow> int \<Rightarrow> int \<Rightarrow> slot list list" where
  "monthDays tz viewYear viewMonth =
     (let firstOfMonth = NewDate tz (Some viewYear) (Some viewMonth) (Some 1);
          firstWeekday = getDay firstOfMonth;
          daysInMonth = getDate (NewDate tz (Some viewYear) (Some (viewMonth + 1)) (Some 0))
      in case first_week tz viewYear viewMonth firstWeekday 0 (replicate 7 None, 1) of
           (week, dayCounter) \<Rightarrow> weeks_loop tz viewYear viewMonth daysInMonth ([week], dayCounter))"

section \<open>Application state and document store\<close>

text \<open>
  The document store holds two collections of documents, each document an id with its
  fields. The application reads and writes the fields below.
\<close>

record employee_data =
  emp_name :: string
  emp_color :: string

record vacation_data =
  employeeId :: string
  vac_start :: string
  vac_end :: string

type_synonym 'a collection = "(string \<times> 'a) list"

record store =
  employees_col :: "employee_data collection"
  vacations_col :: "vacation_data collection"

text \<open>
  A store request is asynchronous and either resolves or rejects; which of the two is not
  decided by the program, so it is a parameter of the model. \<^verbatim>\<open>addDoc\<close> stores the record
  under a document id that the store chooses.
\<close>

datatype net = Resolves | Rejects

datatype store_error = RequestRejected

definition addDoc :: "net \<Rightarrow> string \<Rightarrow> 'a collection \<Rightarrow> 'a \<Rightarrow> store_error + 'a collection" where
  "addDoc r newId col rec = (if r = Resolves then Inr (col @ [(newId, rec)]) else Inl RequestRejected)"

definition deleteDoc :: "net \<Rightarrow> 'a collection \<Rightarrow> string \<Rightarrow> store_error + 'a collection" where
  "deleteDoc r col docId =
     (if r = Resolves then Inr (filter (\<lambda>(i, _). i \<noteq> docId) col) else Inl RequestRejected)"

text \<open>\<^verbatim>\<open>getDocs(query(collection, where("employeeId", "==", empId)))\<close>.\<close>

definition getDocs_where_employeeId ::
  "net \<Rightarrow> vacation_data collection \<Rightarrow> string \<Rightarrow> store_error + vacation_data collection" where
  "getDocs_where_employeeId r col empId =
     (if r = Resolves then Inr (filter (\<lambda>(_, v). employeeId v = empId) col) else Inl RequestRejected)"

text \<open>
  An employee object of the cached list carries the id of its document; the placeholder
  that \<^verbatim>\<open>employeeById\<close> returns has no \<^verbatim>\<open>id\<close> field.
\<close>

record employee =
  obj_id :: "string option"
  obj_name :: string
  obj_color :: string

text \<open>
  The messages shown to the user, by the place that sets them: the texts are
  "Selecciona un rango valido (start y end).", "Selecciona un empleado al que asignar esas
  vacaciones.", "Error: No se puede conectar a la base de datos.", "Vacaciones asignadas
  correctamente." and "Error al asignar vacaciones. Intenta de nuevo.".
\<close>

datatype user_message =
  MsgSelectRange | MsgSelectEmployee | MsgNoDatabase | MsgAssigned | MsgAssignFailed

text \<open>
  The component state the modelled functions read and set. \<open>db\<close> is true when the store
  handle is set (not \<^verbatim>\<open>null\<close>). A string state variable is \<open>None\<close> for \<^verbatim>\<open>null\<close>.
\<close>

record app =
  employees :: "employee list"
  selectStart :: "string option"
  selectEnd :: "string option"
  assignEmployeeId :: "string option"
  message :: "user_message option"
  db :: bool

text \<open>Truthiness of a string or \<^verbatim>\<open>null\<close>: \<^verbatim>\<open>null\<close> and the empty string are falsy.\<close>

definition truthy :: "string option \<Rightarrow> bool" where
  "truthy s = (case s of None \<Rightarrow> False | Some x \<Rightarrow> x \<noteq> [])"

definition parse_opt :: "tz \<Rightarrow> string option \<Rightarrow> jsdate" where
  "parse_opt tz s = (case s of None \<Rightarrow> InvalidDate | Some x \<Rightarrow> parseYMD tz x)"

definition onDayClick :: "tz \<Rightarrow> slot \<Rightarrow> app \<Rightarrow> app" where
  "onDayClick tz dateStr st =
     (if \<not> truthy dateStr then st
      else if \<not> truthy (selectStart st)
        then st\<lparr>selectStart := dateStr, selectEnd := None, message := None\<rparr>
      else if truthy (selectStart st) \<and> \<not> truthy (selectEnd st)
        then (if date_lt tz (parse_opt tz dateStr) (parse_opt tz (selectStart st))
              then st\<lparr>selectEnd := selectStart st, selectStart := dateStr\<rparr>
              else st\<lparr>selectEnd := dateStr\<rparr>)
      else st\<lparr>selectStart := dateStr, selectEnd := None\<rparr>)"

definition clearSelection :: "app \<Rightarrow> app" where
  "clearSelection st =
     st\<lparr>selectStart := None, selectEnd := None, assignEmployeeId := None, message := None\<rparr>"

text \<open>
  \<^verbatim>\<open>tryAssign\<close>: the three guards return after setting a message; then one \<^verbatim>\<open>addDoc\<close> on the
  vacations collection, whose rejection is caught. The state is the component state with
  the store. The timer that clears the success message after 2.5 s is a later event and is
  not part of this step.
\<close>

definition tryAssign :: "net \<Rightarrow> string \<Rightarrow> app \<times> store \<Rightarrow> app \<times> store" where
  "tryAssign r newId s =
     (case s of (st, srv) \<Rightarrow>
        if \<not> truthy (selectStart st) \<or> \<not> truthy (selectEnd st)
          then (st\<lparr>message := Some MsgSelectRange\<rparr>, srv)
        else if \<not> truthy (assignEmployeeId st)
          then (st\<lparr>message := Some MsgSelectEmployee\<rparr>, srv)
        else if \<not> db st
          then (st\<lparr>message := Some MsgNoDatabase\<rparr>, srv)
        else
          (case (assignEmployeeId st, selectStart st, selectEnd st) of
             (Some e, Some newStart, Some newEnd) \<Rightarrow>
               (let newVac = \<lparr>employeeId = e, vac_start = newStart, vac_end = newEnd\<rparr>
                in case addDoc r newId (vacations_col srv) newVac of
                     Inr col \<Rightarrow>
                       ((clearSelection st)\<lparr>message := Some MsgAssigned\<rparr>,
                        srv\<lparr>vacations_col := col\<rparr>)
                   | Inl _ \<Rightarrow> (st\<lparr>message := Some MsgAssignFailed\<rparr>, srv))
           | _ \<Rightarrow> (st, srv)))"

text \<open>
  \<^verbatim>\<open>removeEmployee\<close> awaits the deletion of the employee document and the query, then starts
  one \<^verbatim>\<open>deleteDoc\<close> per document of the query result without awaiting any of them. The
  result is the store after the awaited requests and the ids of the vacation documents
  whose deletion has been issued, in the order of issue. A rejection of an awaited request is
  caught and ends the function.
\<close>

definition removeEmployee :: "net \<Rightarrow> net \<Rightarrow> app \<Rightarrow> string \<Rightarrow> store \<Rightarrow> store \<times> string list" where
  "removeEmployee r1 r2 st empId srv =
     (if \<not> db st then (srv, [])
      else case deleteDoc r1 (employees_col srv) empId of
             Inl _ \<Rightarrow> (srv, [])
           | Inr ec \<Rightarrow>
               (let srv1 = srv\<lparr>employees_col := ec\<rparr>
                in case getDocs_where_employeeId r2 (vacations_col srv1) empId of
                     Inl _ \<Rightarrow> (srv1, [])
                   | Inr querySnapshot \<Rightarrow> (srv1, map fst querySnapshot)))"

text \<open>The issued deletions resolve one by one, in the order given.\<close>

fun resolve_deletes :: "string list \<Rightarrow> store \<Rightarrow> store" where
  "resolve_deletes [] srv = srv"
| "resolve_deletes (d # ds) srv =
     resolve_deletes ds
       (case deleteDoc Resolves (vacations_col srv) d of
          Inr col \<Rightarrow> srv\<lparr>vacations_col := col\<rparr>
        | Inl _ \<Rightarrow> srv)"

definition employeeById :: "app \<Rightarrow> string option \<Rightarrow> employee" where
  "employeeById st ident =
     (case find (\<lambda>e. ident \<noteq> None \<and> obj_id e = ident) (employees st) of
        Some e \<Rightarrow> e
      | None \<Rightarrow> \<lparr>obj_id = None, obj_name = ''Desconocido'', obj_color = ''gray''\<rparr>)"

section \<open>Notions used to state the properties\<close>

text \<open>
  The string of the calendar date with year \<open>y\<close>, month \<open>mo\<close> (1 to 12) and day \<open>d\<close>, in the
  form \<^verbatim>\<open>formatYMD\<close> writes: the year in decimal, month and day on two digits.
\<close>

definition date_string :: "int \<Rightarrow> int \<Rightarrow> int \<Rightarrow> string" where
  "date_string y mo d =
     String (Some y) @ ''-'' @ padStart 2 (CHR ''0'') (String (Some mo)) @ ''-''
       @ padStart 2 (CHR ''0'') (String (Some d))"

text \<open>
  A time zone as the properties need it: the offset from UTC stays within a day, and two
  offsets of the zone (standard and daylight-saving time) differ by less than twelve hours.
\<close>

definition tz_ok :: "tz \<Rightarrow> bool" where
  "tz_ok tz \<longleftrightarrow> (\<forall>n. \<bar>tz n\<bar> \<le> 86400000) \<and> (\<forall>a b. \<bar>tz a - tz b\<bar> < 43200000)"

text \<open>
  A view cursor whose months the Date constructor builds as they are written: the month is
  0 to 11, and the year is at least 100 (a smaller non-negative year is read as 1900 + year)
  and at most 275759, the last year that lies wholly in the range of a Date.
\<close>

definition valid_view :: "int \<Rightarrow> int \<Rightarrow> bool" where
  "valid_view y m \<longleftrightarrow> 100 \<le> y \<and> y \<le> 275759 \<and> 0 \<le> m \<and> m \<le> 11"

text \<open>A zone with daylight-saving time, used to instantiate the properties.\<close>

definition dst_zone :: tz where
  "dst_zone n = (if 80 \<le> n mod 365 \<and> n mod 365 < 300 then 7200000 else 3600000)"

text \<open>A sequence of day clicks, each on a slot of the grid.\<close>

fun clicks :: "tz \<Rightarrow> slot list \<Rightarrow> app \<Rightarrow> app" where
  "clicks tz [] st = st"
| "clicks tz (d # ds) st = clicks tz ds (onDayClick tz d st)"

text \<open>
  The selection is normalized: a start that is set is a valid date, and an end that is set
  is a valid date not before the start.
\<close>

definition sel_normalized :: "tz \<Rightarrow> app \<Rightarrow> bool" where
  "sel_normalized tz st =
     (if \<not> truthy (selectStart st) then True
      else case parse_opt tz (selectStart st) of
             InvalidDate \<Rightarrow> False
           | LocalDay a \<Rightarrow>
               (if \<not> truthy (selectEnd st) then True
                else case parse_opt tz (selectEnd st) of
                       InvalidDate \<Rightarrow> False
                     | LocalDay b \<Rightarrow> a \<le> b))"

text \<open>A slot a user can click: a padding slot, or a date string that is read as a valid Date.\<close>

definition clickable :: "tz \<Rightarrow> slot \<Rightarrow> bool" where
  "clickable tz d = (case d of None \<Rightarrow> True | Some s \<Rightarrow> parseYMD tz s \<noteq> InvalidDate)"

text \<open>The preconditions of an assignment, as \<^verbatim>\<open>tryAssign\<close> tests them.\<close>

definition assign_ready :: "app \<Rightarrow> bool" where
  "assign_ready st \<longleftrightarrow>
     truthy (selectStart st) \<and> truthy (selectEnd st) \<and> truthy (assignEmployeeId st) \<and> db st"

definition sample_app :: app where
  "sample_app =
     \<lparr>employees = [\<lparr>obj_id = Some ''e1'', obj_name = ''Ana'', obj_color = ''red''\<rparr>,
                   \<lparr>obj_id = Some ''e2'', obj_name = ''Luis'', obj_color = ''blue''\<rparr>],
      selectStart = None, selectEnd = None, assignEmployeeId = None, message = None, db = True\<rparr>"

definition sample_store :: store where
  "sample_store =
     \<lparr>employees_col = [(''e1'', \<lparr>emp_name = ''Ana'', emp_color = ''red''\<rparr>),
                       (''e2'', \<lparr>emp_name = ''Luis'', emp_color = ''blue''\<rparr>)],
      vacations_col = [(''v1'', \<lparr>employeeId = ''e1'', vac_start = ''2024-01-10'', vac_end = ''2024-01-15''\<rparr>),
                       (''v2'', \<lparr>employeeId = ''e2'', vac_start = ''2024-01-12'', vac_end = ''2024-01-14''\<rparr>),
                       (''v3'', \<lparr>employeeId = ''e1'', vac_start = ''2024-03-01'', vac_end = ''2024-04-01''\<rparr>)]\<rparr>"

text \<open>
  The string of a calendar date with the year on at least \<open>w\<close> digits: \<open>w = 4\<close> is the form
  YYYY-MM-DD with leading zeros, \<open>w = 0\<close> the form \<^verbatim>\<open>formatYMD\<close> writes.
\<close>

definition padded_date_string :: "nat \<Rightarrow> int \<Rightarrow> int \<Rightarrow> int \<Rightarrow> string" where
  "padded_date_string w y mo d =
     padStart w (CHR ''0'') (String (Some y)) @ ''-'' @ padStart 2 (CHR ''0'') (String (Some mo))
       @ ''-'' @ padStart 2 (CHR ''0'') (String (Some d))"

text \<open>
  A calendar date that \<^verbatim>\<open>parseYMD\<close> reads as written: day \<open>d\<close> of month \<open>m\<close> (0 to 11) of a
  year from 100 on, within the range of a Date.
\<close>

definition calendar_date :: "tz \<Rightarrow> int \<Rightarrow> int \<Rightarrow> int \<Rightarrow> bool" where
  "calendar_date tz y m d \<longleftrightarrow>
     100 \<le> y \<and> 0 \<le> m \<and> m \<le> 11 \<and> 1 \<le> d \<and> d \<le> days_in_month y m
     \<and> \<bar>valueOf tz (MakeDay y m d)\<bar> \<le> 8640000000000000"

text \<open>The order of the calendar: by year, then month, then day.\<close>

fun earlier :: "int \<times> int \<times> int \<Rightarrow> int \<times> int \<times> int \<Rightarrow> bool" where
  "earlier (y1, m1, d1) (y2, m2, d2) \<longleftrightarrow>
     y1 < y2 \<or> (y1 = y2 \<and> (m1 < m2 \<or> (m1 = m2 \<and> d1 < d2)))"

section \<open>Properties of the day arithmetic\<close>

lemma div_bounds:
  fixes x k :: int
  assumes "0 < k"
  shows "k * (x div k) \<le> x" and "x < k * (x div k) + k"
proof -
  have "x = k * (x div k) + x mod k" by simp
  moreover have "0 \<le> x mod k" "x mod k < k" using assms by simp_all
  ultimately show "k * (x div k) \<le> x" and "x < k * (x div k) + k" by linarith+
qed

lemma div_step:
  fixes x k :: int
  assumes "0 < k"
  shows "(x + 1) div k = x div k + (if (x + 1) mod k = 0 then 1 else 0)"
proof -
  define q r where "q = x div k" and "r = x mod k"
  have x: "x = q * k + r" and r: "0 \<le> r" "r < k"
    using assms by (simp_all add: q_def r_def)
  show ?thesis
  proof (cases "r + 1 = k")
    case True
    then have "x + 1 = (q + 1) * k" using x by (simp add: algebra_simps)
    then show ?thesis using assms by (simp add: q_def)
  next
    case False
    then have lt: "r + 1 < k" using r by simp
    have e: "x + 1 = (r + 1) + q * k" using x by simp
    have "(x + 1) div k = q" "(x + 1) mod k = r + 1"
      unfolding e using r lt by (simp_all add: div_pos_pos_trivial)
    then show ?thesis using r by (simp add: q_def)
  qed
qed

lemma mod4_shift: "(y - 1968) mod 4 = 0 \<longleftrightarrow> y mod 4 = 0" for y :: int by presburger

lemma mod100_shift: "(y - 1900) mod 100 = 0 \<longleftrightarrow> y mod 100 = 0" for y :: int by presburger

lemma mod400_shift: "(y - 1600) mod 400 = 0 \<longleftrightarrow> y mod 400 = 0" for y :: int by presburger

lemma mod100_mod4: "y mod 100 = 0 \<Longrightarrow> y mod 4 = 0" for y :: int by presburger

lemma mod400_mod100: "y mod 400 = 0 \<Longrightarrow> y mod 100 = 0" for y :: int by presburger

lemma DayFromYear_Suc: "DayFromYear (y + 1) = DayFromYear y + DaysInYear y"
proof -
  have e: "y + 1 - 1969 = (y - 1969) + 1" "y + 1 - 1901 = (y - 1901) + 1"
    "y + 1 - 1601 = (y - 1601) + 1" "y + 1 - 1970 = (y - 1970) + 1" by simp_all
  have s: "y - 1969 + 1 = y - 1968" "y - 1901 + 1 = y - 1900" "y - 1601 + 1 = y - 1600" by simp_all
  have a: "(y + 1 - 1969) div 4 = (y - 1969) div 4 + (if y mod 4 = 0 then 1 else 0)"
    unfolding e using div_step [of 4 "y - 1969"] unfolding s mod4_shift by simp
  have b: "(y + 1 - 1901) div 100 = (y - 1901) div 100 + (if y mod 100 = 0 then 1 else 0)"
    unfolding e using div_step [of 100 "y - 1901"] unfolding s mod100_shift by simp
  have c: "(y + 1 - 1601) div 400 = (y - 1601) div 400 + (if y mod 400 = 0 then 1 else 0)"
    unfolding e using div_step [of 400 "y - 1601"] unfolding s mod400_shift by simp
  show ?thesis
    unfolding DayFromYear_def DaysInYear_def a b c using mod100_mod4 [of y] mod400_mod100 [of y]
    by (simp split: if_splits)
qed

lemma DayFromYear_bounds:
  "146097 * (y - 1970) - 120000 \<le> 400 * DayFromYear y"
  "400 * DayFromYear y \<le> 146097 * (y - 1970) + 120000"
proof -
  define a b c where "a = (y - 1969) div 4" and "b = (y - 1901) div 100" and "c = (y - 1601) div 400"
  have "4 * a \<le> y - 1969" "y - 1969 < 4 * a + 4" "100 * b \<le> y - 1901" "y - 1901 < 100 * b + 100"
    "400 * c \<le> y - 1601" "y - 1601 < 400 * c + 400"
    unfolding a_def b_def c_def by (simp_all add: div_bounds)
  moreover have "DayFromYear y = 365 * (y - 1970) + a - b + c"
    by (simp add: DayFromYear_def a_def b_def c_def)
  ultimately show "146097 * (y - 1970) - 120000 \<le> 400 * DayFromYear y"
    "400 * DayFromYear y \<le> 146097 * (y - 1970) + 120000"
    by (simp_all add: algebra_simps)
qed

lemma DaysInYear_ge: "365 \<le> DaysInYear y" "DaysInYear y \<le> 366"
  by (simp_all add: DaysInYear_def)

lemma YearFromDay_unique:
  assumes lo: "DayFromYear y \<le> n" and hi: "n < DayFromYear (y + 1)"
  shows "YearFromDay n = y"
proof -
  define y0 where "y0 = 1970 + (400 * n) div 146097"
  have q: "146097 * (y0 - 1970) \<le> 400 * n" "400 * n < 146097 * (y0 - 1970) + 146097"
    unfolding y0_def using div_bounds [of 146097 "400 * n"] by simp_all
  have "y0 \<le> y + 1"
    using q(1) hi DayFromYear_bounds(2) [of "y + 1"] by simp
  moreover have "y - 1 \<le> y0"
    using q(2) lo DayFromYear_bounds(1) [of y] by simp
  ultimately consider "y0 = y - 1" | "y0 = y" | "y0 = y + 1" by linarith
  then have "(if DayFromYear (y0 + 1) \<le> n then y0 + 1
         else if DayFromYear y0 \<le> n then y0 else y0 - 1) = y"
  proof cases
    case 1
    then show ?thesis using lo by simp
  next
    case 2
    then show ?thesis using lo hi by simp
  next
    case 3
    have "DayFromYear (y + 1 + 1) = DayFromYear (y + 1) + DaysInYear (y + 1)"
      by (rule DayFromYear_Suc)
    then have "n < DayFromYear (y + 1 + 1)" using hi DaysInYear_ge(1) [of "y + 1"] by linarith
    then show ?thesis using 3 hi by simp
  qed
  then show ?thesis unfolding YearFromDay_def Let_def y0_def .
qed

lemma InLeapYear_range: "0 \<le> InLeapYear y" "InLeapYear y \<le> 1"
  by (simp_all add: InLeapYear_def)

lemma DaysInYear_leap: "DaysInYear y = 365 + InLeapYear y"
  by (simp add: InLeapYear_def DaysInYear_def)

lemma february: "days_in_month y 1 = 28 + InLeapYear y"
proof (cases "y mod 4 = 0")
  case False
  then show ?thesis by (simp add: days_in_month_def InLeapYear_def DaysInYear_def)
next
  case y4: True
  show ?thesis
  proof (cases "y mod 100 = 0")
    case False
    then show ?thesis using y4 by (simp add: days_in_month_def InLeapYear_def DaysInYear_def)
  next
    case True
    then show ?thesis using y4 by (simp add: days_in_month_def InLeapYear_def DaysInYear_def)
  qed
qed

lemma month_cases:
  fixes m :: int
  assumes "0 \<le> m" "m \<le> 11"
  obtains "m = 0" | "m = 1" | "m = 2" | "m = 3" | "m = 4" | "m = 5" | "m = 6" | "m = 7"
    | "m = 8" | "m = 9" | "m = 10" | "m = 11"
proof -
  have "m = 0 \<or> m = 1 \<or> m = 2 \<or> m = 3 \<or> m = 4 \<or> m = 5 \<or> m = 6 \<or> m = 7
    \<or> m = 8 \<or> m = 9 \<or> m = 10 \<or> m = 11"
    using assms by presburger
  then show thesis using that by blast
qed

lemma days_in_month_table:
  "days_in_month y 0 = 31" "days_in_month y 2 = 31" "days_in_month y 3 = 30"
  "days_in_month y 4 = 31" "days_in_month y 5 = 30" "days_in_month y 6 = 31"
  "days_in_month y 7 = 31" "days_in_month y 8 = 30" "days_in_month y 9 = 31"
  "days_in_month y 10 = 30" "days_in_month y 11 = 31"
  by (simp_all add: days_in_month_def)

lemma MonthStart_table:
  "MonthStart y 0 = 0" "MonthStart y 1 = 31" "MonthStart y 2 = 59 + InLeapYear y"
  "MonthStart y 3 = 90 + InLeapYear y" "MonthStart y 4 = 120 + InLeapYear y"
  "MonthStart y 5 = 151 + InLeapYear y" "MonthStart y 6 = 181 + InLeapYear y"
  "MonthStart y 7 = 212 + InLeapYear y" "MonthStart y 8 = 243 + InLeapYear y"
  "MonthStart y 9 = 273 + InLeapYear y" "MonthStart y 10 = 304 + InLeapYear y"
  "MonthStart y 11 = 334 + InLeapYear y"
  by (simp_all add: MonthStart_def)

lemmas month_tables = MonthStart_table days_in_month_table february

lemma MonthStart_next:
  assumes "0 \<le> m" "m \<le> 10"
  shows "MonthStart y (m + 1) = MonthStart y m + days_in_month y m"
proof -
  have "m \<le> 11" using assms by simp
  with assms(1) show ?thesis
    by (cases m rule: month_cases) (use assms in \<open>simp_all add: month_tables\<close>)
qed

lemma MonthStart_last: "MonthStart y 11 + days_in_month y 11 = DaysInYear y"
  by (simp add: month_tables DaysInYear_leap)

lemma MakeDay_in_range:
  assumes "0 \<le> m" "m \<le> 11"
  shows "MakeDay y m d = DayFromYear y + MonthStart y m + d - 1"
  using assms by (simp add: MakeDay_def)

lemma civil_within_year:
  assumes "0 \<le> m" "m \<le> 11" "1 \<le> d" "d \<le> days_in_month y m"
  shows "0 \<le> MonthStart y m + d - 1" "MonthStart y m + d - 1 < DaysInYear y"
proof -
  note L = InLeapYear_range [of y]
  show "0 \<le> MonthStart y m + d - 1"
    using assms(1,2)
    by (cases m rule: month_cases) (use assms(3) L in \<open>simp_all add: month_tables\<close>)
  show "MonthStart y m + d - 1 < DaysInYear y"
    using assms(1,2)
    by (cases m rule: month_cases) (use assms(4) L in \<open>simp_all add: month_tables DaysInYear_leap\<close>)
qed

lemma YearFromDay_MakeDay:
  assumes "0 \<le> m" "m \<le> 11" "1 \<le> d" "d \<le> days_in_month y m"
  shows "YearFromDay (MakeDay y m d) = y"
proof (rule YearFromDay_unique)
  show "DayFromYear y \<le> MakeDay y m d"
    using civil_within_year(1) [OF assms] by (simp add: MakeDay_in_range assms)
  show "MakeDay y m d < DayFromYear (y + 1)"
    using civil_within_year(2) [OF assms] by (simp add: MakeDay_in_range assms DayFromYear_Suc)
qed

lemma DayWithinYear_MakeDay:
  assumes "0 \<le> m" "m \<le> 11" "1 \<le> d" "d \<le> days_in_month y m"
  shows "DayWithinYear (MakeDay y m d) = MonthStart y m + d - 1"
proof -
  have "DayWithinYear (MakeDay y m d) = MakeDay y m d - DayFromYear y"
    unfolding DayWithinYear_def YearFromDay_MakeDay [OF assms] ..
  then show ?thesis by (simp add: MakeDay_in_range assms)
qed

lemma MonthFromDay_MakeDay:
  assumes "0 \<le> m" "m \<le> 11" "1 \<le> d" "d \<le> days_in_month y m"
  shows "MonthFromDay (MakeDay y m d) = m"
proof -
  note L = InLeapYear_range [of y]
  show ?thesis
    unfolding MonthFromDay_def DayWithinYear_MakeDay [OF assms] YearFromDay_MakeDay [OF assms] Let_def
    using assms(1,2)
    by (cases m rule: month_cases) (use assms(3,4) L in \<open>simp_all add: month_tables\<close>)
qed

lemma DateFromDay_MakeDay:
  assumes "0 \<le> m" "m \<le> 11" "1 \<le> d" "d \<le> days_in_month y m"
  shows "DateFromDay (MakeDay y m d) = d"
  unfolding DateFromDay_def MonthFromDay_MakeDay [OF assms] DayWithinYear_MakeDay [OF assms]
    YearFromDay_MakeDay [OF assms] Let_def
  using assms(1,2)
  by (cases m rule: month_cases) (simp_all add: month_tables)

lemma MakeDay_last_of_month:
  assumes "0 \<le> m" "m \<le> 11"
  shows "MakeDay y (m + 1) 0 = MakeDay y m (days_in_month y m)"
proof (cases "m = 11")
  case True
  have "MakeDay y 12 0 = DayFromYear (y + 1) - 1"
    by (simp add: MakeDay_def MonthStart_def)
  then show ?thesis
    using True MonthStart_last [of y] by (simp add: MakeDay_in_range DayFromYear_Suc)
next
  case False
  then have "m \<le> 10" using assms by simp
  then show ?thesis
    using assms MonthStart_next [of m y] by (simp add: MakeDay_in_range)
qed

lemma YearFromDay_bracket:
  "DayFromYear (YearFromDay n) \<le> n" "n < DayFromYear (YearFromDay n + 1)"
proof -
  define y0 where "y0 = 1970 + (400 * n) div 146097"
  have q: "146097 * (y0 - 1970) \<le> 400 * n" "400 * n < 146097 * (y0 - 1970) + 146097"
    unfolding y0_def using div_bounds [of 146097 "400 * n"] by simp_all
  have lo: "DayFromYear (y0 - 1) \<le> n"
    using q(1) DayFromYear_bounds(2) [of "y0 - 1"] by simp
  have hi: "n < DayFromYear (y0 + 1 + 1)"
    using q(2) DayFromYear_bounds(1) [of "y0 + 1 + 1"] by simp
  have Y: "YearFromDay n = (if DayFromYear (y0 + 1) \<le> n then y0 + 1
         else if DayFromYear y0 \<le> n then y0 else y0 - 1)"
    unfolding YearFromDay_def Let_def y0_def ..
  show "DayFromYear (YearFromDay n) \<le> n"
    unfolding Y using lo by simp
  show "n < DayFromYear (YearFromDay n + 1)"
    unfolding Y using hi by simp
qed

lemma DayWithinYear_range: "0 \<le> DayWithinYear n" "DayWithinYear n < 365 + InLeapYear (YearFromDay n)"
  using YearFromDay_bracket [of n] DayFromYear_Suc [of "YearFromDay n"]
  by (simp_all add: DayWithinYear_def DaysInYear_leap)

lemma MonthFromDay_range: "0 \<le> MonthFromDay n" "MonthFromDay n \<le> 11"
  by (simp_all add: MonthFromDay_def Let_def)

text \<open>Reading a day as year, month and date and building it again gives the day back.\<close>

lemma MakeDay_of_fields: "MakeDay (YearFromDay n) (MonthFromDay n) (DateFromDay n) = n"
proof -
  define y d L where "y = YearFromDay n" and "d = DayWithinYear n" and "L = InLeapYear y"
  have d: "0 \<le> d" "d < 365 + L"
    using DayWithinYear_range [of n] by (simp_all add: d_def L_def y_def)
  have M: "MonthFromDay n =
      (if d < 31 then 0 else if d < 59 + L then 1 else if d < 90 + L then 2
       else if d < 120 + L then 3 else if d < 151 + L then 4 else if d < 181 + L then 5
       else if d < 212 + L then 6 else if d < 243 + L then 7 else if d < 273 + L then 8
       else if d < 304 + L then 9 else if d < 334 + L then 10 else 11)"
    unfolding MonthFromDay_def Let_def d_def L_def y_def ..
  have "MonthStart y (MonthFromDay n) + DateFromDay n - 1 = d"
    unfolding DateFromDay_def Let_def MonthStart_def d_def [symmetric] y_def [symmetric]
      L_def [symmetric] M
    by simp
  moreover have "DayFromYear y + d = n"
    by (simp add: d_def y_def DayWithinYear_def)
  ultimately show ?thesis
    using MonthFromDay_range [of n]
    by (simp add: MakeDay_in_range y_def [symmetric])
qed

lemma DateFromDay_range: "1 \<le> DateFromDay n" "DateFromDay n \<le> days_in_month (YearFromDay n) (MonthFromDay n)"
proof -
  define y d L where "y = YearFromDay n" and "d = DayWithinYear n" and "L = InLeapYear y"
  have d: "0 \<le> d" "d < 365 + L"
    using DayWithinYear_range [of n] by (simp_all add: d_def L_def y_def)
  have L: "0 \<le> L" "L \<le> 1" by (simp_all add: L_def InLeapYear_range)
  have M: "MonthFromDay n =
      (if d < 31 then 0 else if d < 59 + L then 1 else if d < 90 + L then 2
       else if d < 120 + L then 3 else if d < 151 + L then 4 else if d < 181 + L then 5
       else if d < 212 + L then 6 else if d < 243 + L then 7 else if d < 273 + L then 8
       else if d < 304 + L then 9 else if d < 334 + L then 10 else 11)"
    unfolding MonthFromDay_def Let_def d_def L_def y_def ..
  show "1 \<le> DateFromDay n"
    unfolding DateFromDay_def Let_def d_def [symmetric] y_def [symmetric] L_def [symmetric] M
    using d L by simp
  show "DateFromDay n \<le> days_in_month (YearFromDay n) (MonthFromDay n)"
    unfolding DateFromDay_def Let_def d_def [symmetric] y_def [symmetric] L_def [symmetric] M
    using d L by (simp add: month_tables L_def [symmetric])
qed

text \<open>Day numbers follow the calendar: the next calendar day is the next number.\<close>

lemma MakeDay_next_day:
  assumes "0 \<le> m" "m \<le> 11"
  shows "MakeDay y m (d + 1) = MakeDay y m d + 1"
    and "MakeDay y (m + 1) 1 = MakeDay y m (days_in_month y m) + 1"
proof -
  show "MakeDay y m (d + 1) = MakeDay y m d + 1"
    by (simp add: MakeDay_def Let_def)
  have "MakeDay y (m + 1) 1 = MakeDay y (m + 1) 0 + 1"
    by (simp add: MakeDay_def Let_def)
  then show "MakeDay y (m + 1) 1 = MakeDay y m (days_in_month y m) + 1"
    using MakeDay_last_of_month [OF assms] by simp
qed

section \<open>Properties of the string helpers\<close>

lemma digit_char_props:
  assumes "d < 10"
  shows "is_digit (digit_char d)" "digit_val (digit_char d) = Some d"
proof -
  have "d = 0 \<or> d = 1 \<or> d = 2 \<or> d = 3 \<or> d = 4 \<or> d = 5 \<or> d = 6 \<or> d = 7 \<or> d = 8 \<or> d = 9"
    using assms by presburger
  then show "digit_val (digit_char d) = Some d"
    by (elim disjE) (simp_all add: digit_val_def digit_char_def)
  then show "is_digit (digit_char d)" by (simp add: is_digit_def)
qed

lemma show_nat_digits: "list_all is_digit (show_nat n)"
proof (induction n rule: show_nat.induct)
  case (1 n)
  show ?case
  proof (cases "n < 10")
    case True
    then show ?thesis by (simp add: show_nat.simps [of n] digit_char_props)
  next
    case False
    then show ?thesis using 1 by (simp add: show_nat.simps [of n] digit_char_props)
  qed
qed

lemma show_nat_value: "foldl (\<lambda>a c. 10 * a + the (digit_val c)) 0 (show_nat n) = n"
proof (induction n rule: show_nat.induct)
  case (1 n)
  show ?case
  proof (cases "n < 10")
    case True
    then show ?thesis by (simp add: show_nat.simps [of n] digit_char_props)
  next
    case False
    then show ?thesis using 1 by (simp add: show_nat.simps [of n] digit_char_props)
  qed
qed

lemma is_digit_not_dash: "is_digit c \<Longrightarrow> c \<noteq> CHR ''-''"
  by (auto simp add: is_digit_def digit_val_def split: if_splits)

lemma pad_digits: "list_all is_digit (padStart k (CHR ''0'') (show_nat n))"
proof -
  have "is_digit CHR ''0''" by (simp add: is_digit_def digit_val_def)
  then show ?thesis
    using show_nat_digits [of n] by (auto simp add: padStart_def list_all_iff)
qed

lemma digits_no_dash: "list_all is_digit s \<Longrightarrow> CHR ''-'' \<notin> set s"
  using is_digit_not_dash by (auto simp add: list_all_iff)

lemma Number_show_nat: "Number (show_nat n) = Some (int n)"
  by (simp add: Number_def show_nat_digits show_nat_value)

lemma Number_padStart: "Number (padStart k (CHR ''0'') (show_nat n)) = Some (int n)"
proof -
  have z: "digit_val CHR ''0'' = Some 0"
    by (simp add: digit_val_def)
  have "foldl (\<lambda>a c. 10 * a + the (digit_val c)) 0 (replicate j CHR ''0'' @ s)
      = foldl (\<lambda>a c. 10 * a + the (digit_val c)) 0 s" for j s
    by (induction j) (simp_all add: z)
  then have "foldl (\<lambda>a c. 10 * a + the (digit_val c)) 0 (padStart k (CHR ''0'') (show_nat n)) = n"
    by (simp add: padStart_def show_nat_value)
  then show ?thesis
    using pad_digits [of k n] by (simp add: Number_def)
qed

lemma split_no_sep: "sep \<notin> set a \<Longrightarrow> split sep a = [a]"
  by (induction a) auto

lemma split_first: "sep \<notin> set a \<Longrightarrow> split sep (a @ sep # rest) = a # split sep rest"
  by (induction a) auto

lemma split_three:
  assumes "sep \<notin> set a" "sep \<notin> set b" "sep \<notin> set c"
  shows "split sep (a @ [sep] @ b @ [sep] @ c) = [a, b, c]"
  using assms by (simp add: split_first split_no_sep)

section \<open>Properties of Dates and of the date utilities\<close>

lemma String_nonneg: "0 \<le> i \<Longrightarrow> String (Some i) = show_nat (nat i)"
  by (simp add: String_def)

lemma formatYMD_LocalDay:
  "formatYMD (DateObj (LocalDay n)) = date_string (YearFromDay n) (MonthFromDay n + 1) (DateFromDay n)"
  by (simp add: formatYMD_def date_string_def getFullYear_def getMonth_def getDate_def)

text \<open>What \<^verbatim>\<open>parseYMD\<close> reads from a string that \<^verbatim>\<open>formatYMD\<close> wrote for a year that is not negative.\<close>

lemma parseYMD_date_string:
  assumes "0 \<le> y" "0 \<le> mo" "0 \<le> d"
  shows "parseYMD tz (date_string y mo d) = NewDate tz (Some y) (Some (mo - 1)) (Some d)"
proof -
  let ?a = "show_nat (nat y)"
  let ?b = "padStart 2 (CHR ''0'') (show_nat (nat mo))"
  let ?c = "padStart 2 (CHR ''0'') (show_nat (nat d))"
  have s: "date_string y mo d = ?a @ [CHR ''-''] @ ?b @ [CHR ''-''] @ ?c"
    using assms by (simp add: date_string_def String_nonneg)
  have "split (CHR ''-'') (date_string y mo d) = [?a, ?b, ?c]"
    unfolding s
    by (rule split_three) (simp_all add: digits_no_dash show_nat_digits pad_digits)
  then show ?thesis
    using assms by (simp add: parseYMD_def Number_show_nat Number_padStart)
qed

lemma DayFromYear_mono: "y \<le> z \<Longrightarrow> DayFromYear y \<le> DayFromYear z"
proof (induction z rule: int_ge_induct)
  case base
  show ?case by simp
next
  case (step i)
  then show ?case
    using DayFromYear_Suc [of i] DaysInYear_ge(1) [of i] by simp
qed

lemma MakeDay_bounds:
  assumes "valid_view y m" "1 \<le> d" "d \<le> days_in_month y m"
  shows "- 683003 \<le> MakeDay y m d" "MakeDay y m d \<le> 99999743"
proof -
  have m: "0 \<le> m" "m \<le> 11" and y: "100 \<le> y" "y + 1 \<le> 275760"
    using assms(1) by (simp_all add: valid_view_def)
  have "DayFromYear 100 \<le> DayFromYear y" "DayFromYear (y + 1) \<le> DayFromYear 275760"
    using y by (simp_all add: DayFromYear_mono)
  moreover have "DayFromYear 100 = - 683003" "DayFromYear 275760 = 99999744"
    by (simp_all add: DayFromYear_def)
  moreover have "DayFromYear y \<le> MakeDay y m d" "MakeDay y m d < DayFromYear (y + 1)"
    using civil_within_year [OF m assms(2,3)]
    by (simp_all add: MakeDay_in_range m DayFromYear_Suc)
  ultimately show "- 683003 \<le> MakeDay y m d" "MakeDay y m d \<le> 99999743"
    by linarith+
qed

lemma NewDate_valid:
  assumes "tz_ok tz" "valid_view y m" "1 \<le> d" "d \<le> days_in_month y m"
  shows "NewDate tz (Some y) (Some m) (Some d) = LocalDay (MakeDay y m d)"
proof -
  have "\<bar>tz (MakeDay y m d)\<bar> \<le> 86400000"
    using assms(1) by (simp add: tz_ok_def)
  then have "\<bar>valueOf tz (MakeDay y m d)\<bar> \<le> 8640000000000000"
    using MakeDay_bounds [OF assms(2,3,4)] by (simp add: valueOf_def msPerDay_def)
  moreover have "(if 0 \<le> y \<and> y \<le> 99 then 1900 + y else y) = y"
    using assms(2) by (simp add: valid_view_def)
  ultimately show ?thesis
    unfolding NewDate_def Let_def by simp
qed

lemma day_cell_valid:
  assumes "tz_ok tz" "valid_view y m" "1 \<le> d" "d \<le> days_in_month y m"
  shows "day_cell tz y m d = Some (date_string y (m + 1) d)"
proof -
  have m: "0 \<le> m" "m \<le> 11"
    using assms(2) by (simp_all add: valid_view_def)
  show ?thesis
    unfolding day_cell_def NewDate_valid [OF assms] formatYMD_LocalDay
    by (simp add: YearFromDay_MakeDay [OF m assms(3,4)] MonthFromDay_MakeDay [OF m assms(3,4)]
        DateFromDay_MakeDay [OF m assms(3,4)])
qed

lemma days_in_month_ge: "28 \<le> days_in_month y m" "days_in_month y m \<le> 31"
  by (simp_all add: days_in_month_def)

lemma parseYMD_valid:
  assumes "tz_ok tz" "valid_view y m" "1 \<le> d" "d \<le> days_in_month y m"
  shows "parseYMD tz (date_string y (m + 1) d) = LocalDay (MakeDay y m d)"
proof -
  have "0 \<le> y" "0 \<le> m + 1" "0 \<le> d"
    using assms(2,3) by (simp_all add: valid_view_def)
  then show ?thesis
    using NewDate_valid [OF assms] by (simp add: parseYMD_date_string)
qed

text \<open>Time values of the days of a zone are ordered as the days are.\<close>

lemma valueOf_less:
  assumes "tz_ok tz"
  shows "valueOf tz a < valueOf tz b \<longleftrightarrow> a < b"
proof -
  have d: "\<bar>tz a - tz b\<bar> < 43200000"
    using assms by (simp add: tz_ok_def)
  show ?thesis
  proof (cases "a < b")
    case True
    then have "a + 1 \<le> b" by simp
    then have "(a + 1) * 86400000 \<le> b * 86400000" by simp
    then show ?thesis using True d by (simp add: valueOf_def msPerDay_def algebra_simps)
  next
    case False
    then have "b * 86400000 \<le> a * 86400000" by simp
    moreover have "a = b \<or> b + 1 \<le> a" using False by linarith
    then have "a = b \<or> (b + 1) * 86400000 \<le> a * 86400000" by auto
    ultimately show ?thesis using False d by (auto simp add: valueOf_def msPerDay_def algebra_simps)
  qed
qed

lemma date_lt_days:
  "tz_ok tz \<Longrightarrow> date_lt tz (LocalDay a) (LocalDay b) \<longleftrightarrow> a < b"
  by (simp add: date_lt_def timeValue_def js_lt_def valueOf_less)

lemma round_div_floor:
  assumes "0 < q"
  shows "round_div p q = \<lfloor>real_of_int p / real_of_int q + 1 / 2\<rfloor>"
proof -
  have "real_of_int p / real_of_int q + 1 / 2 = real_of_int (2 * p + q) / real_of_int (2 * q)"
    using assms by (simp add: field_simps)
  then show ?thesis
    unfolding round_div_def by (simp only: floor_divide_of_int_eq)
qed

text \<open>Rounding the quotient absorbs a change of offset of less than twelve hours.\<close>

lemma round_div_days:
  assumes "\<bar>e\<bar> < 43200000"
  shows "round_div (k * 86400000 + e) 86400000 = k"
proof -
  have "2 * (k * 86400000 + e) + 86400000 = k * 172800000 + (2 * e + 86400000)"
    by simp
  moreover have "0 \<le> 2 * e + 86400000" "2 * e + 86400000 < 172800000"
    using assms by simp_all
  ultimately have "(2 * (k * 86400000 + e) + 86400000) div 172800000 = k"
    by (simp add: div_pos_pos_trivial)
  then show ?thesis by (simp add: round_div_def)
qed

lemma dst_zone_ok: "tz_ok dst_zone"
  by (simp add: tz_ok_def dst_zone_def)

lemma parseYMD_empty: "parseYMD tz [] = InvalidDate"
  by (simp add: parseYMD_def)

lemma parseYMD_truthy: "parseYMD tz s = LocalDay n \<Longrightarrow> truthy (Some s)"
  by (cases s) (simp_all add: truthy_def parseYMD_empty)

lemma sample_strings:
  "''2024-01-10'' = date_string 2024 (0 + 1) 10" "''2024-01-14'' = date_string 2024 (0 + 1) 14"
  "''2024-01-15'' = date_string 2024 (0 + 1) 15" "''2024-01-20'' = date_string 2024 (0 + 1) 20"
  "''2024-03-01'' = date_string 2024 (2 + 1) 1" "''2024-04-01'' = date_string 2024 (3 + 1) 1"
  by (simp_all add: date_string_def String_def show_nat.simps digit_char_def padStart_def)

lemma sample_days:
  "MakeDay 2024 0 10 = 19732" "MakeDay 2024 0 14 = 19736" "MakeDay 2024 0 15 = 19737"
  "MakeDay 2024 0 20 = 19742" "MakeDay 2024 2 1 = 19783" "MakeDay 2024 3 1 = 19814"
  by (simp_all add: MakeDay_def DayFromYear_def MonthStart_def InLeapYear_def DaysInYear_def)

lemma sample_parse:
  assumes "tz_ok tz"
  shows "parseYMD tz ''2024-01-10'' = LocalDay 19732" "parseYMD tz ''2024-01-14'' = LocalDay 19736"
    "parseYMD tz ''2024-01-15'' = LocalDay 19737" "parseYMD tz ''2024-01-20'' = LocalDay 19742"
    "parseYMD tz ''2024-03-01'' = LocalDay 19783" "parseYMD tz ''2024-04-01'' = LocalDay 19814"
  unfolding sample_strings
  by (subst parseYMD_valid [OF assms]; simp add: valid_view_def days_in_month_def sample_days)+

section \<open>Calendar dates as strings and as day numbers\<close>

lemma parseYMD_padded:
  assumes "0 \<le> y" "0 \<le> mo" "0 \<le> d"
  shows "parseYMD tz (padded_date_string w y mo d) = NewDate tz (Some y) (Some (mo - 1)) (Some d)"
proof -
  let ?a = "padStart w (CHR ''0'') (show_nat (nat y))"
  let ?b = "padStart 2 (CHR ''0'') (show_nat (nat mo))"
  let ?c = "padStart 2 (CHR ''0'') (show_nat (nat d))"
  have s: "padded_date_string w y mo d = ?a @ [CHR ''-''] @ ?b @ [CHR ''-''] @ ?c"
    using assms by (simp add: padded_date_string_def String_nonneg)
  have "split (CHR ''-'') (padded_date_string w y mo d) = [?a, ?b, ?c]"
    unfolding s
    by (rule split_three) (simp_all add: digits_no_dash pad_digits)
  then show ?thesis
    using assms by (simp add: parseYMD_def Number_padStart)
qed

lemma parse_calendar_date:
  assumes "calendar_date tz y m d"
  shows "parseYMD tz (padded_date_string w y (m + 1) d) = LocalDay (MakeDay y m d)"
proof -
  have "0 \<le> y" "0 \<le> m + 1" "0 \<le> d"
    and keep: "(if 0 \<le> y \<and> y \<le> 99 then 1900 + y else y) = y"
    and range: "\<bar>valueOf tz (MakeDay y m d)\<bar> \<le> 8640000000000000"
    using assms by (simp_all add: calendar_date_def)
  then have "parseYMD tz (padded_date_string w y (m + 1) d) = NewDate tz (Some y) (Some m) (Some d)"
    by (simp add: parseYMD_padded)
  also have "\<dots> = LocalDay (MakeDay y m d)"
    unfolding NewDate_def using keep range by simp
  finally show ?thesis .
qed

lemma valid_view_calendar_date:
  assumes "tz_ok tz" "valid_view y m" "1 \<le> d" "d \<le> days_in_month y m"
  shows "calendar_date tz y m d"
proof -
  have "\<bar>tz (MakeDay y m d)\<bar> \<le> 86400000"
    using assms(1) by (simp add: tz_ok_def)
  then have "\<bar>valueOf tz (MakeDay y m d)\<bar> \<le> 8640000000000000"
    using MakeDay_bounds [OF assms(2,3,4)] by (simp add: valueOf_def msPerDay_def)
  then show ?thesis
    using assms(2,3,4) by (simp add: calendar_date_def valid_view_def)
qed

lemma MonthStart_mono:
  assumes "0 \<le> m" "m \<le> k" "k \<le> 11"
  shows "MonthStart y m \<le> MonthStart y k"
  using assms(2,3)
proof (induction k rule: int_ge_induct)
  case base
  show ?case by simp
next
  case (step i)
  then have "0 \<le> i" "i \<le> 10" using assms(1) by simp_all
  then show ?case
    using step MonthStart_next [of i y] days_in_month_ge(1) [of y i] by simp
qed

text \<open>Day numbers are ordered as the calendar is.\<close>

lemma MakeDay_earlier:
  assumes a: "0 \<le> m1" "m1 \<le> 11" "1 \<le> d1" "d1 \<le> days_in_month y1 m1"
    and b: "0 \<le> m2" "m2 \<le> 11" "1 \<le> d2" "d2 \<le> days_in_month y2 m2"
    and lt: "earlier (y1, m1, d1) (y2, m2, d2)"
  shows "MakeDay y1 m1 d1 < MakeDay y2 m2 d2"
proof -
  note r1 = MakeDay_in_range [OF a(1,2)] and r2 = MakeDay_in_range [OF b(1,2)]
  consider "y1 < y2" | "y1 = y2" "m1 < m2" | "y1 = y2" "m1 = m2" "d1 < d2"
    using lt by auto
  then show ?thesis
  proof cases
    case 1
    have "MakeDay y1 m1 d1 < DayFromYear (y1 + 1)"
      using civil_within_year(2) [OF a] by (simp add: r1 DayFromYear_Suc)
    moreover have "DayFromYear (y1 + 1) \<le> DayFromYear y2"
      using 1 by (simp add: DayFromYear_mono)
    moreover have "DayFromYear y2 \<le> MakeDay y2 m2 d2"
      using civil_within_year(1) [OF b] by (simp add: r2)
    ultimately show ?thesis by linarith
  next
    case 2
    then have m: "m1 \<le> 10" "m1 + 1 \<le> m2" using b(2) by simp_all
    have "MonthStart y1 m1 + d1 \<le> MonthStart y1 (m1 + 1)"
      using MonthStart_next [OF a(1) m(1), of y1] a(4) by simp
    moreover have "MonthStart y1 (m1 + 1) \<le> MonthStart y1 m2"
      using MonthStart_mono [of "m1 + 1" m2 y1] a(1) m(2) b(2) by simp
    ultimately show ?thesis
      using 2(1) b(3) by (simp add: r1 r2)
  next
    case 3
    then show ?thesis by (simp add: r1 r2)
  qed
qed

lemma MakeDay_less_iff:
  assumes a: "0 \<le> m1" "m1 \<le> 11" "1 \<le> d1" "d1 \<le> days_in_month y1 m1"
    and b: "0 \<le> m2" "m2 \<le> 11" "1 \<le> d2" "d2 \<le> days_in_month y2 m2"
  shows "MakeDay y1 m1 d1 < MakeDay y2 m2 d2 \<longleftrightarrow> earlier (y1, m1, d1) (y2, m2, d2)"
proof -
  have "earlier (y1, m1, d1) (y2, m2, d2) \<or> (y1, m1, d1) = (y2, m2, d2)
      \<or> earlier (y2, m2, d2) (y1, m1, d1)"
    by (simp only: earlier.simps prod.inject) arith
  then consider "earlier (y1, m1, d1) (y2, m2, d2)" | "(y1, m1, d1) = (y2, m2, d2)"
    | "earlier (y2, m2, d2) (y1, m1, d1)"
    by blast
  then show ?thesis
  proof cases
    case 1
    then show ?thesis using MakeDay_earlier [OF a b] by simp
  next
    case 2
    then show ?thesis by simp
  next
    case 3
    then have "MakeDay y2 m2 d2 < MakeDay y1 m1 d1"
      using MakeDay_earlier [OF b a] by simp
    moreover have "\<not> earlier (y1, m1, d1) (y2, m2, d2)"
      using 3 by auto
    ultimately show ?thesis by simp
  qed
qed

section \<open>Properties of the grid loops\<close>

lemma first_week_stop: "\<not> i < 7 \<Longrightarrow> first_week tz y m fw i (week, dc) = (week, dc)"
  by (subst first_week.simps) auto

lemma first_week_pad:
  "i < 7 \<Longrightarrow> js_lt (Some (int i)) fw \<Longrightarrow>
     first_week tz y m fw i (week, dc) = first_week tz y m fw (i + 1) (week[i := None], dc)"
  by (subst first_week.simps) auto

lemma first_week_day:
  "i < 7 \<Longrightarrow> \<not> js_lt (Some (int i)) fw \<Longrightarrow>
     first_week tz y m fw i (week, dc)
       = first_week tz y m fw (i + 1) (week[i := day_cell tz y m dc], dc + 1)"
  by (subst first_week.simps) auto

lemma fill_week_stop:
  "\<not> (i < 7 \<and> js_le (Some dc) dmax) \<Longrightarrow> fill_week tz y m dmax i (w, dc) = (w, dc)"
  by (subst fill_week.simps) auto

lemma fill_week_step:
  "i < 7 \<and> js_le (Some dc) dmax \<Longrightarrow>
     fill_week tz y m dmax i (w, dc)
       = fill_week tz y m dmax (i + 1) (w[i := day_cell tz y m dc], dc + 1)"
  by (subst fill_week.simps) auto

lemma first_week_length: "length (fst (first_week tz y m fw i (week, dc))) = length week"
proof (induction tz y m fw i "(week, dc)" arbitrary: week dc rule: first_week.induct)
  case (1 tz y m fw i week dc)
  show ?case
  proof (cases "i < 7")
    case False
    then show ?thesis by (simp add: first_week_stop)
  next
    case True
    show ?thesis
    proof (cases "js_lt (Some (int i)) fw")
      case lt: True
      show ?thesis
        using "1.hyps"(1) [OF True lt] by (simp add: first_week_pad [OF True lt])
    next
      case ge: False
      show ?thesis
        using "1.hyps"(2) [OF True ge] by (simp add: first_week_day [OF True ge])
    qed
  qed
qed

lemma fill_week_length: "length (fst (fill_week tz y m dmax i (w, dc))) = length w"
proof (induction tz y m dmax i "(w, dc)" arbitrary: w dc rule: fill_week.induct)
  case (1 tz y m dmax i w dc)
  show ?case
  proof (cases "i < 7 \<and> js_le (Some dc) dmax")
    case True
    then show ?thesis
      using "1.hyps" [OF True] by (simp add: fill_week_step [OF True])
  next
    case False
    then show ?thesis by (simp add: fill_week_stop [OF False])
  qed
qed

text \<open>
  The first row, slot by slot: the slots before \<open>i\<close> are as they were, the slots before the
  first weekday are empty, and the others hold consecutive days.
\<close>

lemma first_week_slots:
  assumes "0 \<le> f" "f \<le> 7" "length week = 7" "i \<le> 7"
  shows "snd (first_week tz y m (Some f) i (week, dc)) = dc + (7 - max (int i) f)
       \<and> (\<forall>j<7. fst (first_week tz y m (Some f) i (week, dc)) ! j =
            (if j < i then week ! j
             else if int j < f then None
             else day_cell tz y m (dc + int j - max (int i) f)))"
  using assms(3,4)
proof (induction tz y m "Some f" i "(week, dc)" arbitrary: week dc rule: first_week.induct)
  case (1 tz y m i week dc)
  show ?case
  proof (cases "i < 7")
    case False
    then have "i = 7" using "1.prems" by simp
    moreover have "max (7 :: int) f = 7" using assms(2) by simp
    ultimately show ?thesis
      by (simp add: first_week_stop)
  next
    case True
    show ?thesis
    proof (cases "int i < f")
      case lt: True
      then have js: "js_lt (Some (int i)) (Some f)" by (simp add: js_lt_def)
      note step = first_week_pad [OF True js, of tz y m week dc]
      have mx: "max (int i) f = f" "max (int (i + 1)) f = f"
        using lt by simp_all
      have ih: "snd (first_week tz y m (Some f) (i + 1) (week[i := None], dc)) = dc + (7 - f)"
        "\<And>j. j < 7 \<Longrightarrow> fst (first_week tz y m (Some f) (i + 1) (week[i := None], dc)) ! j =
            (if j < i + 1 then week[i := None] ! j
             else if int j < f then None
             else day_cell tz y m (dc + int j - f))"
        using "1.hyps"(1) [OF True js] "1.prems" True unfolding mx by simp_all
      have "fst (first_week tz y m (Some f) (i + 1) (week[i := None], dc)) ! j =
            (if j < i then week ! j
             else if int j < f then None
             else day_cell tz y m (dc + int j - f))" if "j < 7" for j
      proof (cases "j = i")
        case True
        then show ?thesis using ih(2) [OF that] lt "1.prems"(1) \<open>i < 7\<close> by simp
      next
        case False
        then show ?thesis using ih(2) [OF that] by (simp add: less_Suc_eq)
      qed
      then show ?thesis
        unfolding step mx using ih(1) by simp
    next
      case ge: False
      then have js: "\<not> js_lt (Some (int i)) (Some f)" by (simp add: js_lt_def)
      note step = first_week_day [OF True js, of tz y m week dc]
      have mx: "max (int i) f = int i" "max (int (i + 1)) f = int (i + 1)"
        using ge by simp_all
      have ih: "snd (first_week tz y m (Some f) (i + 1) (week[i := day_cell tz y m dc], dc + 1))
            = dc + 1 + (7 - int (i + 1))"
        "\<And>j. j < 7 \<Longrightarrow>
          fst (first_week tz y m (Some f) (i + 1) (week[i := day_cell tz y m dc], dc + 1)) ! j =
            (if j < i + 1 then week[i := day_cell tz y m dc] ! j
             else if int j < f then None
             else day_cell tz y m (dc + 1 + int j - int (i + 1)))"
        using "1.hyps"(2) [OF True js] "1.prems" True unfolding mx by simp_all
      have "fst (first_week tz y m (Some f) (i + 1) (week[i := day_cell tz y m dc], dc + 1)) ! j =
            (if j < i then week ! j
             else if int j < f then None
             else day_cell tz y m (dc + int j - int i))" if "j < 7" for j
      proof (cases "j = i")
        case True
        then show ?thesis using ih(2) [OF that] ge "1.prems"(1) \<open>i < 7\<close> by simp
      next
        case False
        have e: "dc + 1 + int j - int (i + 1) = dc + int j - int i" by simp
        show ?thesis using ih(2) [OF that, unfolded e] False by (simp add: less_Suc_eq)
      qed
      moreover have "dc + 1 + (7 - int (i + 1)) = dc + (7 - int i)" by simp
      ultimately show ?thesis
        unfolding step mx using ih(1) by simp
    qed
  qed
qed

text \<open>A later row, slot by slot: \<open>k\<close> consecutive days from slot \<open>i\<close> on, the rest as it was.\<close>

lemma fill_week_slots:
  assumes "length w = 7" "i \<le> 7"
  shows "snd (fill_week tz y m (Some D) i (w, dc)) = dc + min (7 - int i) (max 0 (D + 1 - dc))
       \<and> (\<forall>j<7. fst (fill_week tz y m (Some D) i (w, dc)) ! j =
            (if int i \<le> int j \<and> int j < int i + min (7 - int i) (max 0 (D + 1 - dc))
             then day_cell tz y m (dc + int j - int i)
             else w ! j))"
  using assms
proof (induction tz y m "Some D" i "(w, dc)" arbitrary: w dc rule: fill_week.induct)
  case (1 tz y m i w dc)
  show ?case
  proof (cases "i < 7 \<and> js_le (Some dc) (Some D)")
    case False
    then have "min (7 - int i) (max 0 (D + 1 - dc)) = 0"
      using "1.prems"(2) by (auto simp add: js_le_def)
    then show ?thesis
      by (auto simp add: fill_week_stop [OF False])
  next
    case True
    then have le: "dc \<le> D" and i: "i < 7" by (simp_all add: js_le_def)
    note step = fill_week_step [OF True, of tz y m w]
    define k where "k = min (7 - int (i + 1)) (max 0 (D + 1 - (dc + 1)))"
    have k: "min (7 - int i) (max 0 (D + 1 - dc)) = k + 1" "0 \<le> k"
      using le i by (simp_all add: k_def)
    have ih: "snd (fill_week tz y m (Some D) (i + 1) (w[i := day_cell tz y m dc], dc + 1)) = dc + 1 + k"
      "\<And>j. j < 7 \<Longrightarrow> fst (fill_week tz y m (Some D) (i + 1) (w[i := day_cell tz y m dc], dc + 1)) ! j =
            (if int (i + 1) \<le> int j \<and> int j < int (i + 1) + k
             then day_cell tz y m (dc + 1 + int j - int (i + 1))
             else w[i := day_cell tz y m dc] ! j)"
      using "1.hyps" [OF True] "1.prems" i unfolding k_def by simp_all
    have "fst (fill_week tz y m (Some D) (i + 1) (w[i := day_cell tz y m dc], dc + 1)) ! j =
            (if int i \<le> int j \<and> int j < int i + (k + 1)
             then day_cell tz y m (dc + int j - int i)
             else w ! j)" if "j < 7" for j
    proof (cases "j = i")
      case True
      then show ?thesis using ih(2) [OF that] k(2) "1.prems"(1) i by simp
    next
      case False
      have e: "dc + 1 + int j - int (i + 1) = dc + int j - int i" by simp
      have c: "(int (i + 1) \<le> int j \<and> int j < int (i + 1) + k)
          \<longleftrightarrow> (int i \<le> int j \<and> int j < int i + (k + 1))"
        using False by auto
      show ?thesis using ih(2) [OF that, unfolded e c] False by simp
    qed
    moreover have "dc + 1 + k = dc + (k + 1)" by simp
    ultimately show ?thesis
      unfolding step k using ih(1) by simp
  qed
qed

lemma day_cell_not_None: "day_cell tz y m d \<noteq> None"
  by (simp add: day_cell_def)

lemma first_week_row:
  assumes "0 \<le> f" "f \<le> 6"
  shows "first_week tz y m (Some f) 0 (replicate 7 None, 1)
       = (replicate (nat f) None @ map (day_cell tz y m) [1..7 - f], 8 - f)"
proof -
  let ?r = "first_week tz y m (Some f) 0 (replicate 7 None, 1)"
  have f7: "f \<le> 7" using assms(2) by simp
  note s = first_week_slots [OF assms(1) f7, of "replicate 7 None" 0 tz y m 1, simplified]
  have dc: "snd ?r = 8 - f"
    using s assms(1) by simp
  have slots: "fst ?r ! j = (if int j < f then None else day_cell tz y m (1 + int j - f))"
    if "j < 7" for j
    using s that assms(1) by simp
  have len: "length (fst ?r) = 7"
    by (simp add: first_week_length)
  have "fst ?r = replicate (nat f) None @ map (day_cell tz y m) [1..7 - f]"
  proof (rule nth_equalityI)
    show "length (fst ?r) = length (replicate (nat f) None @ map (day_cell tz y m) [1..7 - f])"
      using assms by (simp add: len)
  next
    fix j assume "j < length (fst ?r)"
    then have j: "j < 7" by (simp add: len)
    show "fst ?r ! j = (replicate (nat f) None @ map (day_cell tz y m) [1..7 - f]) ! j"
    proof (cases "int j < f")
      case True
      then have "j < nat f" by simp
      then show ?thesis using slots [OF j] True by (simp add: nth_append)
    next
      case False
      then have "1 + int (j - nat f) \<le> 7 - f" "\<not> j < nat f" "1 + int (j - nat f) = 1 + int j - f"
        using j assms by simp_all
      then show ?thesis
        using slots [OF j] False by (simp add: nth_append add_diff_eq)
    qed
  qed
  then show ?thesis using dc by (metis prod.collapse)
qed

lemma fill_week_row:
  assumes "dc \<le> D"
  defines "k \<equiv> min 7 (D + 1 - dc)"
  shows "fill_week tz y m (Some D) 0 (replicate 7 None, dc)
       = (map (day_cell tz y m) [dc..dc + k - 1] @ replicate (nat (7 - k)) None, dc + k)"
proof -
  let ?r = "fill_week tz y m (Some D) 0 (replicate 7 None, dc)"
  have k: "1 \<le> k" "k \<le> 7" "min (7 - int 0) (max 0 (D + 1 - dc)) = k"
    using assms(1) by (simp_all add: k_def)
  have "length (replicate 7 (None :: slot)) = 7" "(0 :: nat) \<le> 7" by simp_all
  note s = fill_week_slots [OF this, of tz y m D dc, unfolded k(3)]
  have dc: "snd ?r = dc + k"
    using s by simp
  have slots: "fst ?r ! j = (if int j < k then day_cell tz y m (dc + int j) else None)"
    if "j < 7" for j
  proof -
    have "fst ?r ! j = (if int 0 \<le> int j \<and> int j < int 0 + k
        then day_cell tz y m (dc + int j - int 0) else replicate 7 None ! j)"
      using s that by blast
    then show ?thesis using that by simp
  qed
  have len: "length (fst ?r) = 7"
    by (simp add: fill_week_length)
  have "fst ?r = map (day_cell tz y m) [dc..dc + k - 1] @ replicate (nat (7 - k)) None"
  proof (rule nth_equalityI)
    show "length (fst ?r) = length (map (day_cell tz y m) [dc..dc + k - 1] @ replicate (nat (7 - k)) None)"
      using k by (simp add: len)
  next
    fix j assume "j < length (fst ?r)"
    then have j: "j < 7" by (simp add: len)
    show "fst ?r ! j = (map (day_cell tz y m) [dc..dc + k - 1] @ replicate (nat (7 - k)) None) ! j"
    proof (cases "int j < k")
      case True
      then have "dc + int j \<le> dc + k - 1" "j < nat k" by simp_all
      then show ?thesis using slots [OF j] True k by (simp add: nth_append)
    next
      case False
      then have "\<not> j < nat k" "j - nat k < nat (7 - k)" using j k by simp_all
      then show ?thesis using slots [OF j] False k by (simp add: nth_append)
    qed
  qed
  then show ?thesis using dc by (metis prod.collapse)
qed

lemma weeks_loop_stop:
  "\<not> js_le (Some dc) dmax \<Longrightarrow> weeks_loop tz y m dmax (weeks, dc) = weeks"
  by (subst weeks_loop.simps) auto

lemma weeks_loop_step:
  assumes "dc \<le> D"
  shows "weeks_loop tz y m (Some D) (weeks, dc)
       = weeks_loop tz y m (Some D)
           (weeks @ [map (day_cell tz y m) [dc..dc + min 7 (D + 1 - dc) - 1]
                       @ replicate (nat (7 - min 7 (D + 1 - dc))) None],
            dc + min 7 (D + 1 - dc))"
proof -
  have "js_le (Some dc) (Some D)" using assms by (simp add: js_le_def)
  then show ?thesis
    by (subst weeks_loop.simps) (simp add: fill_week_row [OF assms])
qed

lemma weeks_loop_filter:
  "filter (\<lambda>c. c \<noteq> None) (concat (weeks_loop tz y m (Some D) (weeks, dc)))
     = filter (\<lambda>c. c \<noteq> None) (concat weeks) @ map (day_cell tz y m) [dc..D]"
proof (induction "nat (D + 1 - dc)" arbitrary: weeks dc rule: less_induct)
  case less
  show ?case
  proof (cases "dc \<le> D")
    case False
    then show ?thesis by (simp add: weeks_loop_stop js_le_def)
  next
    case True
    define k where "k = min 7 (D + 1 - dc)"
    have k: "1 \<le> k" "dc + k - 1 \<le> D" using True by (simp_all add: k_def)
    have "nat (D + 1 - (dc + k)) < nat (D + 1 - dc)" using k True by simp
    note ih = less.hyps [OF this]
    have cells: "filter P (map (day_cell tz y m) xs) = map (day_cell tz y m) xs"
      if "\<And>d. P (day_cell tz y m d)" for P xs
      using that by (induction xs) simp_all
    have some: "\<exists>s. day_cell tz y m d = Some s" for d
      by (simp add: day_cell_def)
    have split: "[dc..D] = [dc..dc + k - 1] @ [dc + k..D]"
    proof (cases "dc + k \<le> D")
      case True
      then show ?thesis using upto_split1 [of dc "dc + k" D] k by simp
    next
      case False
      then have "dc + k - 1 = D" using k by simp
      then show ?thesis using False by simp
    qed
    show ?thesis
      unfolding weeks_loop_step [OF True] k_def [symmetric] ih split
      by (simp add: cells some)
  qed
qed

lemma weeks_loop_rows:
  assumes "\<forall>w \<in> set weeks. length w = 7"
  shows "\<forall>w \<in> set (weeks_loop tz y m dmax (weeks, dc)). length w = 7"
proof (cases dmax)
  case None
  then show ?thesis using assms by (simp add: weeks_loop_stop js_le_def)
next
  case (Some D)
  show ?thesis
    using assms unfolding Some
  proof (induction "nat (D + 1 - dc)" arbitrary: weeks dc rule: less_induct)
    case less
    show ?case
    proof (cases "dc \<le> D")
      case False
      then show ?thesis using less.prems by (simp add: weeks_loop_stop js_le_def)
    next
      case True
      define k where "k = min 7 (D + 1 - dc)"
      have k: "1 \<le> k" "k \<le> 7" "dc + k - 1 \<le> D" using True by (simp_all add: k_def)
      have lt: "nat (D + 1 - (dc + k)) < nat (D + 1 - dc)" using k True by simp
      have "\<forall>w \<in> set (weeks @ [map (day_cell tz y m) [dc..dc + k - 1] @ replicate (nat (7 - k)) None]).
          length w = 7"
        using less.prems k by auto
      from less.hyps [OF lt this] show ?thesis
        unfolding weeks_loop_step [OF True] k_def [symmetric] .
    qed
  qed
qed

lemma weeks_loop_hd:
  assumes "weeks \<noteq> []"
  shows "hd (weeks_loop tz y m dmax (weeks, dc)) = hd weeks \<and> weeks_loop tz y m dmax (weeks, dc) \<noteq> []"
proof (cases dmax)
  case None
  then show ?thesis using assms by (simp add: weeks_loop_stop js_le_def)
next
  case (Some D)
  show ?thesis
    using assms unfolding Some
  proof (induction "nat (D + 1 - dc)" arbitrary: weeks dc rule: less_induct)
    case less
    show ?case
    proof (cases "dc \<le> D")
      case False
      then show ?thesis using less.prems by (simp add: weeks_loop_stop js_le_def)
    next
      case True
      define k where "k = min 7 (D + 1 - dc)"
      have k: "1 \<le> k" using True by (simp add: k_def)
      have lt: "nat (D + 1 - (dc + k)) < nat (D + 1 - dc)" using k True by simp
      have "weeks @ [map (day_cell tz y m) [dc..dc + k - 1] @ replicate (nat (7 - k)) None] \<noteq> []"
        by simp
      from less.hyps [OF lt this] show ?thesis
        unfolding weeks_loop_step [OF True] k_def [symmetric] using less.prems by simp
    qed
  qed
qed

lemma weeks_loop_last:
  assumes "dc \<le> D"
  shows "last (weeks_loop tz y m (Some D) (weeks, dc))
       = map (day_cell tz y m) [D - (D - dc) mod 7..D] @ replicate (nat (6 - (D - dc) mod 7)) None"
  using assms
proof (induction "nat (D + 1 - dc)" arbitrary: weeks dc rule: less_induct)
  case less
  define k where "k = min 7 (D + 1 - dc)"
  have k: "1 \<le> k" "k \<le> 7" using less.prems by (simp_all add: k_def)
  have lt: "nat (D + 1 - (dc + k)) < nat (D + 1 - dc)" using k less.prems by simp
  show ?case
  proof (cases "dc + k \<le> D")
    case True
    then have k7: "k = 7" by (simp add: k_def)
    have "(D - (dc + 7)) mod 7 = (D - dc) mod 7"
      using mod_diff_right_eq [of "D - dc" 7 7] by (simp add: algebra_simps)
    then show ?thesis
      unfolding weeks_loop_step [OF less.prems] k_def [symmetric]
      using less.hyps [OF lt True] by (simp add: k7)
  next
    case False
    then have r: "(D - dc) mod 7 = D - dc" "k = D + 1 - dc"
      using less.prems by (simp_all add: k_def)
    have "\<not> js_le (Some (dc + k)) (Some D)" using False by (simp add: js_le_def)
    then show ?thesis
      unfolding weeks_loop_step [OF less.prems] k_def [symmetric]
      by (simp add: weeks_loop_stop r)
  qed
qed

lemma WeekDay_range: "0 \<le> WeekDay n" "WeekDay n \<le> 6"
  by (simp_all add: WeekDay_def)

text \<open>The grid of a valid view: the first row, then the loop from day \<open>8 - f\<close> on.\<close>

lemma monthDays_valid:
  assumes "tz_ok tz" "valid_view y m"
  shows "monthDays tz y m =
     weeks_loop tz y m (Some (days_in_month y m))
       ([replicate (nat (WeekDay (MakeDay y m 1))) None
           @ map (day_cell tz y m) [1..7 - WeekDay (MakeDay y m 1)]],
        8 - WeekDay (MakeDay y m 1))"
proof -
  have m: "0 \<le> m" "m \<le> 11" and dmax: "1 \<le> days_in_month y m"
    using assms(2) days_in_month_ge(1) [of y m] by (simp_all add: valid_view_def)
  have first: "NewDate tz (Some y) (Some m) (Some 1) = LocalDay (MakeDay y m 1)"
    using dmax by (simp add: NewDate_valid [OF assms])
  have "NewDate tz (Some y) (Some m) (Some (days_in_month y m)) = LocalDay (MakeDay y m (days_in_month y m))"
    using dmax by (simp add: NewDate_valid [OF assms])
  moreover have "(if 0 \<le> y \<and> y \<le> 99 then 1900 + y else y) = y"
    using assms(2) by (simp add: valid_view_def)
  then have "NewDate tz (Some y) (Some (m + 1)) (Some 0)
      = NewDate tz (Some y) (Some m) (Some (days_in_month y m))"
    unfolding NewDate_def by (simp add: MakeDay_last_of_month [OF m])
  ultimately have "getDate (NewDate tz (Some y) (Some (m + 1)) (Some 0))
      = Some (DateFromDay (MakeDay y m (days_in_month y m)))"
    by (simp add: getDate_def)
  then have last: "getDate (NewDate tz (Some y) (Some (m + 1)) (Some 0)) = Some (days_in_month y m)"
    using dmax by (simp add: DateFromDay_MakeDay [OF m])
  show ?thesis
    unfolding monthDays_def Let_def first last
    by (simp add: getDay_def first_week_row [OF WeekDay_range])
qed

lemma day_cells_valid:
  assumes "tz_ok tz" "valid_view y m" "1 \<le> a" "b \<le> days_in_month y m"
  shows "map (day_cell tz y m) [a..b] = map (\<lambda>d. Some (date_string y (m + 1) d)) [a..b]"
  using assms(3,4) by (intro map_cong refl) (simp add: day_cell_valid [OF assms(1,2)])

lemma monthDays_first_row:
  assumes "tz_ok tz" "valid_view y m"
  shows "hd (monthDays tz y m) =
     replicate (nat (WeekDay (MakeDay y m 1))) None
       @ map (\<lambda>d. Some (date_string y (m + 1) d)) [1..7 - WeekDay (MakeDay y m 1)]"
proof -
  have "7 - WeekDay (MakeDay y m 1) \<le> days_in_month y m"
    using WeekDay_range(1) [of "MakeDay y m 1"] days_in_month_ge(1) [of y m] by simp
  then show ?thesis
    unfolding monthDays_valid [OF assms]
    by (simp add: weeks_loop_hd day_cells_valid [OF assms])
qed

lemma monthDays_last_row_cells:
  assumes "tz_ok tz" "valid_view y m"
  defines "r \<equiv> (days_in_month y m + WeekDay (MakeDay y m 1) - 1) mod 7"
  shows "last (monthDays tz y m) =
     map (\<lambda>d. Some (date_string y (m + 1) d)) [days_in_month y m - r..days_in_month y m]
       @ replicate (nat (6 - r)) None"
proof -
  let ?D = "days_in_month y m" and ?f = "WeekDay (MakeDay y m 1)"
  have le: "8 - ?f \<le> ?D"
    using WeekDay_range(1) [of "MakeDay y m 1"] days_in_month_ge(1) [of y m] by simp
  have "(?D - (8 - ?f)) mod 7 = (?D + ?f - 1 - 7) mod 7" by (simp add: algebra_simps)
  also have "\<dots> = r"
    unfolding r_def using mod_diff_right_eq [of "?D + ?f - 1" 7 7] by simp
  finally have r: "(?D - (8 - ?f)) mod 7 = r" .
  have "0 \<le> r" "r \<le> 6" by (simp_all add: r_def)
  then have "1 \<le> ?D - r" using days_in_month_ge(1) [of y m] by simp
  then show ?thesis
    unfolding monthDays_valid [OF assms(1,2)] weeks_loop_last [OF le] r
    by (simp add: day_cells_valid [OF assms(1,2)])
qed

lemma monthDays_rows:
  "monthDays tz y m \<noteq> [] \<and> (\<forall>w \<in> set (monthDays tz y m). length w = 7)"
proof -
  obtain week dc where fw: "first_week tz y m (getDay (NewDate tz (Some y) (Some m) (Some 1))) 0
      (replicate 7 None, 1) = (week, dc)"
    by (cases "first_week tz y m (getDay (NewDate tz (Some y) (Some m) (Some 1))) 0 (replicate 7 None, 1)")
  have "length week = 7"
    using first_week_length [of tz y m "getDay (NewDate tz (Some y) (Some m) (Some 1))" 0
        "replicate 7 None" 1]
    by (simp add: fw)
  then have "\<forall>w \<in> set [week]. length w = 7" by simp
  then have "\<forall>w \<in> set (weeks_loop tz y m dmax ([week], dc)). length w = 7" for dmax
    by (rule weeks_loop_rows)
  moreover have "weeks_loop tz y m dmax ([week], dc) \<noteq> []" for dmax
    using weeks_loop_hd [of "[week]" tz y m dmax dc] by simp
  ultimately show ?thesis
    unfolding monthDays_def Let_def fw by simp
qed

lemma sample_view:
  "valid_view 2024 1" "days_in_month 2024 1 = 29" "WeekDay (MakeDay 2024 1 1) = 4"
  by (simp_all add: valid_view_def days_in_month_def WeekDay_def MakeDay_def DayFromYear_def
      MonthStart_def)

lemma sample_dates:
  "date_string 2024 2 1 = ''2024-02-01''" "date_string 2024 2 2 = ''2024-02-02''"
  "date_string 2024 2 3 = ''2024-02-03''" "date_string 2024 2 25 = ''2024-02-25''"
  "date_string 2024 2 26 = ''2024-02-26''" "date_string 2024 2 27 = ''2024-02-27''"
  "date_string 2024 2 28 = ''2024-02-28''" "date_string 2024 2 29 = ''2024-02-29''"
  by (simp_all add: date_string_def String_def show_nat.simps digit_char_def padStart_def)

lemma sample_first_row:
  "hd (monthDays dst_zone 2024 1) =
     [None, None, None, None, Some ''2024-02-01'', Some ''2024-02-02'', Some ''2024-02-03'']"
  using monthDays_first_row [OF dst_zone_ok sample_view(1)]
  by (simp add: sample_view sample_dates upto.simps eval_nat_numeral)

lemma sample_last_row:
  "last (monthDays dst_zone 2024 1) =
     [Some ''2024-02-25'', Some ''2024-02-26'', Some ''2024-02-27'', Some ''2024-02-28'',
      Some ''2024-02-29'', None, None]"
  using monthDays_last_row_cells [OF dst_zone_ok sample_view(1)]
  by (simp add: sample_view sample_dates upto.simps eval_nat_numeral)

section \<open>Date utilities: day difference and overlap\<close>

text \<open>On the days that \<^verbatim>\<open>parseYMD\<close> reads, the utilities compute with day numbers.\<close>

lemma daysBetween_parsed:
  assumes "tz_ok tz" "parseYMD tz a = LocalDay m" "parseYMD tz b = LocalDay n"
  shows "daysBetween tz a b = Some (n - m)"
proof -
  have "\<bar>tz m - tz n\<bar> < 43200000"
    using assms(1) by (simp add: tz_ok_def)
  moreover have "valueOf tz n - valueOf tz m = (n - m) * 86400000 + (tz m - tz n)"
    by (simp add: valueOf_def msPerDay_def algebra_simps)
  ultimately have "round_div (valueOf tz n - valueOf tz m) 86400000 = n - m"
    using round_div_days [of "tz m - tz n" "n - m"] by simp
  then show ?thesis
    by (simp add: daysBetween_def timeValue_def assms(2,3))
qed

lemma rangesOverlap_parsed:
  assumes "tz_ok tz" "parseYMD tz aStart = LocalDay a1" "parseYMD tz aEnd = LocalDay a2"
    "parseYMD tz bStart = LocalDay b1" "parseYMD tz bEnd = LocalDay b2"
  shows "rangesOverlap tz aStart aEnd bStart bEnd \<longleftrightarrow> \<not> (a2 < b1 \<or> b2 < a1)"
  by (simp add: rangesOverlap_def date_lt_days [OF assms(1)] assms(2-))

lemma padded_samples:
  "''2024-03-01'' = padded_date_string 4 2024 3 1"
  "''2024-04-01'' = padded_date_string 4 2024 4 1"
  "''0099-12-30'' = padded_date_string 4 99 12 30"
  "''0099-12-31'' = padded_date_string 4 99 12 31"
  "''0100-01-01'' = padded_date_string 4 100 1 1"
  "''0100-01-02'' = padded_date_string 4 100 1 2"
  "''0100-01-03'' = padded_date_string 4 100 1 3"
proof -
  have r: "replicate 2 c = [c, c]" for c :: char
    by (simp add: numeral_2_eq_2)
  show "''2024-03-01'' = padded_date_string 4 2024 3 1"
    "''2024-04-01'' = padded_date_string 4 2024 4 1"
    "''0099-12-30'' = padded_date_string 4 99 12 30"
    "''0099-12-31'' = padded_date_string 4 99 12 31"
    "''0100-01-01'' = padded_date_string 4 100 1 1"
    "''0100-01-02'' = padded_date_string 4 100 1 2"
    "''0100-01-03'' = padded_date_string 4 100 1 3"
    by (simp_all add: padded_date_string_def String_def show_nat.simps digit_char_def padStart_def r)
qed

lemma sample_calendar_dates:
  "calendar_date dst_zone 2024 2 1" "calendar_date dst_zone 2024 3 1"
  "calendar_date dst_zone 100 0 1" "calendar_date dst_zone 100 0 2" "calendar_date dst_zone 100 0 3"
  by (simp_all add: calendar_date_def days_in_month_def MakeDay_def DayFromYear_def MonthStart_def
      InLeapYear_def DaysInYear_def valueOf_def msPerDay_def dst_zone_def)

lemma year_99_days:
  "MakeDay 1999 11 30 = 10955" "MakeDay 1999 11 31 = 10956" "MakeDay 99 11 31 = - 683004"
  "MakeDay 100 0 1 = - 683003" "MakeDay 100 0 2 = - 683002" "MakeDay 100 0 3 = - 683001"
  by (simp_all add: MakeDay_def DayFromYear_def MonthStart_def InLeapYear_def DaysInYear_def)

lemma year_99_zone:
  "\<bar>valueOf dst_zone 10955\<bar> \<le> 8640000000000000"
  "\<bar>valueOf dst_zone 10956\<bar> \<le> 8640000000000000"
  by (simp_all add: valueOf_def msPerDay_def dst_zone_def)

lemma year_99_parse:
  "parseYMD dst_zone ''0099-12-30'' = LocalDay 10955"
  "parseYMD dst_zone ''0099-12-31'' = LocalDay 10956"
  "parseYMD dst_zone ''0100-01-01'' = LocalDay (- 683003)"
  "parseYMD dst_zone ''0100-01-02'' = LocalDay (- 683002)"
  "parseYMD dst_zone ''0100-01-03'' = LocalDay (- 683001)"
proof -
  have "parseYMD dst_zone ''0099-12-30'' = NewDate dst_zone (Some 99) (Some 11) (Some 30)"
    unfolding padded_samples by (simp add: parseYMD_padded)
  then show "parseYMD dst_zone ''0099-12-30'' = LocalDay 10955"
    by (simp add: NewDate_def year_99_days year_99_zone)
  have "parseYMD dst_zone ''0099-12-31'' = NewDate dst_zone (Some 99) (Some 11) (Some 31)"
    unfolding padded_samples by (simp add: parseYMD_padded)
  then show "parseYMD dst_zone ''0099-12-31'' = LocalDay 10956"
    by (simp add: NewDate_def year_99_days year_99_zone)
  show "parseYMD dst_zone ''0100-01-01'' = LocalDay (- 683003)"
    "parseYMD dst_zone ''0100-01-02'' = LocalDay (- 683002)"
    "parseYMD dst_zone ''0100-01-03'' = LocalDay (- 683001)"
    using parse_calendar_date [OF sample_calendar_dates(3), of 4]
      parse_calendar_date [OF sample_calendar_dates(4), of 4]
      parse_calendar_date [OF sample_calendar_dates(5), of 4]
    by (simp_all add: padded_samples [symmetric] year_99_days)
qed

text \<open>
  C6 (as the code has it). For all dates \<open>a\<close> and \<open>b\<close> whose year is 100 or later, written
  year-month-day with or without leading zeros in the year, \<^verbatim>\<open>daysBetween(a, a)\<close> is 0,
  \<^verbatim>\<open>daysBetween(a, b)\<close> is \<^verbatim>\<open>-daysBetween(b, a)\<close>, and \<^verbatim>\<open>daysBetween(a, b)\<close> is the exact whole-day
  calendar difference \<open>b - a\<close>, the difference of the day numbers of the two calendar dates,
  positive exactly when \<open>b\<close> is the later date of the calendar; this holds also when a
  daylight-saving transition lies between the two dates (any change of offset of less than
  twelve hours).
\<close>

theorem daysBetween_calendar:
  assumes "tz_ok tz" "calendar_date tz y1 m1 d1" "calendar_date tz y2 m2 d2"
  shows "daysBetween tz (padded_date_string w1 y1 (m1 + 1) d1) (padded_date_string w1 y1 (m1 + 1) d1)
           = Some 0
       \<and> daysBetween tz (padded_date_string w1 y1 (m1 + 1) d1) (padded_date_string w2 y2 (m2 + 1) d2)
           = Some (MakeDay y2 m2 d2 - MakeDay y1 m1 d1)
       \<and> daysBetween tz (padded_date_string w1 y1 (m1 + 1) d1) (padded_date_string w2 y2 (m2 + 1) d2)
           = map_option uminus
               (daysBetween tz (padded_date_string w2 y2 (m2 + 1) d2)
                  (padded_date_string w1 y1 (m1 + 1) d1))
       \<and> (js_lt (Some 0)
             (daysBetween tz (padded_date_string w1 y1 (m1 + 1) d1)
                (padded_date_string w2 y2 (m2 + 1) d2))
            \<longleftrightarrow> earlier (y1, m1, d1) (y2, m2, d2))"
proof -
  let ?a = "padded_date_string w1 y1 (m1 + 1) d1" and ?b = "padded_date_string w2 y2 (m2 + 1) d2"
  note pa = parse_calendar_date [OF assms(2), of w1] and pb = parse_calendar_date [OF assms(3), of w2]
  have aa: "daysBetween tz ?a ?a = Some 0"
    using daysBetween_parsed [OF assms(1) pa pa] by simp
  have ab: "daysBetween tz ?a ?b = Some (MakeDay y2 m2 d2 - MakeDay y1 m1 d1)"
    by (rule daysBetween_parsed [OF assms(1) pa pb])
  have ba: "daysBetween tz ?b ?a = Some (MakeDay y1 m1 d1 - MakeDay y2 m2 d2)"
    by (rule daysBetween_parsed [OF assms(1) pb pa])
  have "MakeDay y1 m1 d1 < MakeDay y2 m2 d2 \<longleftrightarrow> earlier (y1, m1, d1) (y2, m2, d2)"
    using assms(2,3) by (intro MakeDay_less_iff) (simp_all add: calendar_date_def)
  then have sign: "js_lt (Some 0) (daysBetween tz ?a ?b) \<longleftrightarrow> earlier (y1, m1, d1) (y2, m2, d2)"
    unfolding ab by (simp add: js_lt_def)
  show ?thesis
    using aa sign unfolding ab ba by simp
qed

theorem daysBetween_calendar_witness:
  "tz_ok dst_zone \<and> calendar_date dst_zone 2024 2 1 \<and> calendar_date dst_zone 2024 3 1
   \<and> dst_zone (MakeDay 2024 2 1) \<noteq> dst_zone (MakeDay 2024 3 1)
   \<and> daysBetween dst_zone ''2024-03-01'' ''2024-03-01'' = Some 0
   \<and> daysBetween dst_zone ''2024-03-01'' ''2024-04-01'' = Some 31
   \<and> daysBetween dst_zone ''2024-04-01'' ''2024-03-01'' = Some (- 31)
   \<and> earlier (2024, 2, 1) (2024, 3, 1)"
proof -
  note c = sample_calendar_dates(1,2)
  have z: "dst_zone (MakeDay 2024 2 1) \<noteq> dst_zone (MakeDay 2024 3 1)"
    by (simp add: sample_days dst_zone_def)
  show ?thesis
    using daysBetween_calendar [OF dst_zone_ok c(1) c(2), of 4 4]
      daysBetween_calendar [OF dst_zone_ok c(2) c(1), of 4 4]
      dst_zone_ok c z
    by (simp add: padded_samples [symmetric] sample_days)
qed

text \<open>
  The claim as written covers all dates. From 0099-12-31 to 0100-01-01 the calendar
  difference is one day; the year 99 is read as 1999, and the result is a large negative
  number.
\<close>

theorem daysBetween_year_99:
  "daysBetween dst_zone ''0099-12-31'' ''0100-01-01'' = Some (- 693959)
   \<and> MakeDay 100 0 1 - MakeDay 99 11 31 = 1
   \<and> parseYMD dst_zone ''0099-12-31'' = LocalDay (MakeDay 1999 11 31)
   \<and> parseYMD dst_zone ''0100-01-01'' = LocalDay (MakeDay 100 0 1)"
proof -
  note d = year_99_days
  have "daysBetween dst_zone ''0099-12-31'' ''0100-01-01'' = Some (- 683003 - 10956)"
    by (rule daysBetween_parsed [OF dst_zone_ok year_99_parse(2,3)])
  then show ?thesis
    by (simp add: d year_99_parse)
qed

text \<open>
  C7 (as the code has it). For date ranges whose four dates have a year of 100 or later,
  written year-month-day with or without leading zeros in the year,
  \<^verbatim>\<open>rangesOverlap(aStart, aEnd, bStart, bEnd)\<close> is true if and only if neither range ends
  strictly before the other begins in the order of the calendar, a shared boundary date
  counting as overlap; in particular it is true for 2024-01-10..2024-01-15 against
  2024-01-15..2024-01-20 and false for 2024-01-10..2024-01-14 against 2024-01-15..2024-01-20.
\<close>

theorem rangesOverlap_calendar:
  assumes "tz_ok tz"
    and "calendar_date tz ya1 ma1 da1" "calendar_date tz ya2 ma2 da2"
    and "calendar_date tz yb1 mb1 db1" "calendar_date tz yb2 mb2 db2"
  shows "(rangesOverlap tz
            (padded_date_string wa1 ya1 (ma1 + 1) da1) (padded_date_string wa2 ya2 (ma2 + 1) da2)
            (padded_date_string wb1 yb1 (mb1 + 1) db1) (padded_date_string wb2 yb2 (mb2 + 1) db2)
          \<longleftrightarrow> \<not> (earlier (ya2, ma2, da2) (yb1, mb1, db1) \<or> earlier (yb2, mb2, db2) (ya1, ma1, da1)))
       \<and> rangesOverlap tz ''2024-01-10'' ''2024-01-15'' ''2024-01-15'' ''2024-01-20''
       \<and> \<not> rangesOverlap tz ''2024-01-10'' ''2024-01-14'' ''2024-01-15'' ''2024-01-20''"
proof -
  have less: "MakeDay y m d < MakeDay y' m' d' \<longleftrightarrow> earlier (y, m, d) (y', m', d')"
    if "calendar_date tz y m d" "calendar_date tz y' m' d'" for y m d y' m' d'
    using that by (intro MakeDay_less_iff) (simp_all add: calendar_date_def)
  have "rangesOverlap tz
            (padded_date_string wa1 ya1 (ma1 + 1) da1) (padded_date_string wa2 ya2 (ma2 + 1) da2)
            (padded_date_string wb1 yb1 (mb1 + 1) db1) (padded_date_string wb2 yb2 (mb2 + 1) db2)
      \<longleftrightarrow> \<not> (MakeDay ya2 ma2 da2 < MakeDay yb1 mb1 db1 \<or> MakeDay yb2 mb2 db2 < MakeDay ya1 ma1 da1)"
    by (rule rangesOverlap_parsed [OF assms(1)]) (rule parse_calendar_date, fact)+
  then have general: "rangesOverlap tz
            (padded_date_string wa1 ya1 (ma1 + 1) da1) (padded_date_string wa2 ya2 (ma2 + 1) da2)
            (padded_date_string wb1 yb1 (mb1 + 1) db1) (padded_date_string wb2 yb2 (mb2 + 1) db2)
      \<longleftrightarrow> \<not> (earlier (ya2, ma2, da2) (yb1, mb1, db1) \<or> earlier (yb2, mb2, db2) (ya1, ma1, da1))"
    unfolding less [OF assms(3,4)] less [OF assms(5,2)] .
  note p = sample_parse(1-4) [OF assms(1)]
  have "rangesOverlap tz ''2024-01-10'' ''2024-01-15'' ''2024-01-15'' ''2024-01-20''"
    using rangesOverlap_parsed [OF assms(1) p(1) p(3) p(3) p(4)] by simp
  moreover have "\<not> rangesOverlap tz ''2024-01-10'' ''2024-01-14'' ''2024-01-15'' ''2024-01-20''"
    using rangesOverlap_parsed [OF assms(1) p(1) p(2) p(3) p(4)] by simp
  ultimately show ?thesis
    using general by blast
qed

theorem rangesOverlap_calendar_witness:
  "tz_ok dst_zone \<and> calendar_date dst_zone 2024 2 1 \<and> calendar_date dst_zone 2024 3 1
   \<and> calendar_date dst_zone 100 0 1 \<and> calendar_date dst_zone 100 0 2
   \<and> rangesOverlap dst_zone ''2024-03-01'' ''2024-04-01'' ''2024-04-01'' ''2024-04-01''
   \<and> \<not> rangesOverlap dst_zone ''2024-03-01'' ''2024-03-01'' ''2024-04-01'' ''2024-04-01''
   \<and> rangesOverlap dst_zone ''0100-01-01'' ''0100-01-02'' ''0100-01-02'' ''2024-03-01''
   \<and> rangesOverlap dst_zone ''2024-01-10'' ''2024-01-15'' ''2024-01-15'' ''2024-01-20''
   \<and> \<not> rangesOverlap dst_zone ''2024-01-10'' ''2024-01-14'' ''2024-01-15'' ''2024-01-20''"
proof -
  note c = sample_calendar_dates
  show ?thesis
    using rangesOverlap_calendar [OF dst_zone_ok c(1) c(2) c(2) c(2), of 4 4 4 4]
      rangesOverlap_calendar [OF dst_zone_ok c(1) c(1) c(2) c(2), of 4 4 4 4]
      rangesOverlap_calendar [OF dst_zone_ok c(3) c(4) c(4) c(1), of 4 4 4 4]
      dst_zone_ok c
    by (simp add: padded_samples [symmetric])
qed

text \<open>
  The claim as written covers all date ranges. The ranges 0099-12-30..0100-01-02 and
  0100-01-01..0100-01-03 share two days, so neither ends before the other begins; the year
  99 is read as 1999, and the result is false.
\<close>

theorem rangesOverlap_year_99:
  "\<not> rangesOverlap dst_zone ''0099-12-30'' ''0100-01-02'' ''0100-01-01'' ''0100-01-03''
   \<and> \<not> earlier (100, 0, 2) (100, 0, 1)
   \<and> \<not> earlier (100, 0, 3) (99, 11, 30)
   \<and> parseYMD dst_zone ''0099-12-30'' = LocalDay (MakeDay 1999 11 30)"
proof -
  note d = year_99_days
  have "\<not> rangesOverlap dst_zone ''0099-12-30'' ''0100-01-02'' ''0100-01-01'' ''0100-01-03''"
    using rangesOverlap_parsed [OF dst_zone_ok year_99_parse(1,4,3,5)] by simp
  then show ?thesis
    by (simp add: d year_99_parse)
qed

section \<open>The month grid\<close>

text \<open>
  C1. For every valid (year, month), the non-empty slots of the flattened grid are exactly
  the dates from the 1st to the last day of that month, in calendar order, and the first
  date sits at the column of its weekday (Sunday = 0); leap years included. Valid means
  \<open>valid_view\<close>; the length of the month is the Gregorian \<open>days_in_month\<close>, and each date
  string is read back by \<^verbatim>\<open>parseYMD\<close> as that day of that month.
\<close>

theorem monthDays_dates:
  assumes "tz_ok tz" "valid_view y m"
  shows "filter (\<lambda>c. c \<noteq> None) (concat (monthDays tz y m))
           = map (\<lambda>d. Some (date_string y (m + 1) d)) [1..days_in_month y m]
       \<and> hd (monthDays tz y m) ! nat (WeekDay (MakeDay y m 1)) = Some (date_string y (m + 1) 1)
       \<and> (\<forall>i < nat (WeekDay (MakeDay y m 1)). hd (monthDays tz y m) ! i = None)
       \<and> (\<forall>d. 1 \<le> d \<and> d \<le> days_in_month y m \<longrightarrow>
             parseYMD tz (date_string y (m + 1) d) = LocalDay (MakeDay y m d)
           \<and> YearFromDay (MakeDay y m d) = y \<and> MonthFromDay (MakeDay y m d) = m
           \<and> DateFromDay (MakeDay y m d) = d)"
proof -
  let ?D = "days_in_month y m" and ?f = "WeekDay (MakeDay y m 1)"
  have f: "0 \<le> ?f" "?f \<le> 6" by (rule WeekDay_range)+
  have D: "28 \<le> ?D" by (rule days_in_month_ge)
  have m: "0 \<le> m" "m \<le> 11" using assms(2) by (simp_all add: valid_view_def)
  have some: "\<exists>s. day_cell tz y m d = Some s" for d
    by (simp add: day_cell_def)
  have cells: "filter P (map (day_cell tz y m) xs) = map (day_cell tz y m) xs"
    if "\<And>d. P (day_cell tz y m d)" for P xs
    using that by (induction xs) simp_all
  have "[1..?D] = [1..7 - ?f] @ [8 - ?f..?D]"
    using upto_split1 [of 1 "8 - ?f" ?D] f D by simp
  then have "filter (\<lambda>c. c \<noteq> None) (concat (monthDays tz y m)) = map (day_cell tz y m) [1..?D]"
    unfolding monthDays_valid [OF assms] weeks_loop_filter
    by (simp add: cells some)
  then have all: "filter (\<lambda>c. c \<noteq> None) (concat (monthDays tz y m))
      = map (\<lambda>d. Some (date_string y (m + 1) d)) [1..?D]"
    by (simp add: day_cells_valid [OF assms])
  have "1 \<le> 7 - ?f" using f by simp
  then have first: "hd (monthDays tz y m) ! nat ?f = Some (date_string y (m + 1) 1)"
    unfolding monthDays_first_row [OF assms]
    by (simp add: nth_append upto_rec1 [of 1])
  have pad: "\<forall>i < nat ?f. hd (monthDays tz y m) ! i = None"
    unfolding monthDays_first_row [OF assms] by (simp add: nth_append)
  have reads: "parseYMD tz (date_string y (m + 1) d) = LocalDay (MakeDay y m d)
           \<and> YearFromDay (MakeDay y m d) = y \<and> MonthFromDay (MakeDay y m d) = m
           \<and> DateFromDay (MakeDay y m d) = d" if "1 \<le> d" "d \<le> ?D" for d
    using parseYMD_valid [OF assms that] YearFromDay_MakeDay [OF m that]
      MonthFromDay_MakeDay [OF m that] DateFromDay_MakeDay [OF m that]
    by simp
  show ?thesis
    using all first pad reads by blast
qed

theorem monthDays_dates_witness:
  "tz_ok dst_zone \<and> valid_view 2024 1
   \<and> days_in_month 2024 1 = 29
   \<and> WeekDay (MakeDay 2024 1 1) = 4
   \<and> filter (\<lambda>c. c \<noteq> None) (concat (monthDays dst_zone 2024 1))
       = map (\<lambda>d. Some (date_string 2024 2 d)) [1..29]
   \<and> hd (monthDays dst_zone 2024 1) ! 4 = Some ''2024-02-01''
   \<and> hd (monthDays dst_zone 2024 1) ! 3 = None
   \<and> parseYMD dst_zone ''2024-02-29'' = LocalDay (MakeDay 2024 1 29)"
proof -
  note t = monthDays_dates [OF dst_zone_ok sample_view(1), unfolded sample_view(2,3)]
  have a: "filter (\<lambda>c. c \<noteq> None) (concat (monthDays dst_zone 2024 1))
       = map (\<lambda>d. Some (date_string 2024 2 d)) [1..29]"
    using t by simp
  have b: "hd (monthDays dst_zone 2024 1) ! 4 = Some ''2024-02-01''"
    using t by (simp add: sample_dates)
  have c: "hd (monthDays dst_zone 2024 1) ! 3 = None"
    using t by simp
  have d: "parseYMD dst_zone ''2024-02-29'' = LocalDay (MakeDay 2024 1 29)"
    using t by (simp add: sample_dates [symmetric])
  show ?thesis
    using a b c d dst_zone_ok sample_view by simp
qed

text \<open>
  C8 (as the code has it). The final week row has seven slots like every other row: the
  dates up to the month's last day, then empty (null) slots up to the seventh column, which
  are the slots of the row's initial \<^verbatim>\<open>fill(null)\<close> that the loop did not reach. Its dates
  may be fewer than seven and end at the month's last day; there are \<open>r + 1\<close> of them, where
  \<open>r\<close> is the column of the last day.
\<close>

theorem monthDays_last_row:
  assumes "tz_ok tz" "valid_view y m"
  shows "length (last (monthDays tz y m)) = 7
       \<and> last (monthDays tz y m) =
           map (\<lambda>d. Some (date_string y (m + 1) d))
             [days_in_month y m - (days_in_month y m + WeekDay (MakeDay y m 1) - 1) mod 7
              ..days_in_month y m]
           @ replicate (nat (6 - (days_in_month y m + WeekDay (MakeDay y m 1) - 1) mod 7)) None"
proof -
  have "last (monthDays tz y m) \<in> set (monthDays tz y m)"
    using monthDays_rows [of tz y m] by simp
  then have "length (last (monthDays tz y m)) = 7"
    using monthDays_rows [of tz y m] by blast
  then show ?thesis
    using monthDays_last_row_cells [OF assms] by simp
qed

theorem monthDays_last_row_witness:
  "tz_ok dst_zone \<and> valid_view 2024 1
   \<and> length (last (monthDays dst_zone 2024 1)) = 7
   \<and> last (monthDays dst_zone 2024 1) =
       map (\<lambda>d. Some (date_string 2024 2 d)) [25..29] @ replicate 2 None"
proof -
  have "nat (6 - (29 + 4 - 1) mod 7) = 2" "29 - (29 + 4 - 1) mod 7 = (25 :: int)"
    by simp_all
  then show ?thesis
    using monthDays_last_row [OF dst_zone_ok sample_view(1), unfolded sample_view(2,3)]
      dst_zone_ok sample_view(1)
    by simp
qed

text \<open>
  The claim as written says the final row is not right-padded with empty slots. The grid
  of February 2024 ends with a row of seven slots whose last two are empty.
\<close>

theorem monthDays_last_row_padded:
  "last (monthDays dst_zone 2024 1) =
     [Some ''2024-02-25'', Some ''2024-02-26'', Some ''2024-02-27'', Some ''2024-02-28'',
      Some ''2024-02-29'', None, None]
   \<and> length (last (monthDays dst_zone 2024 1)) = 7
   \<and> last (monthDays dst_zone 2024 1) ! 5 = None
   \<and> last (monthDays dst_zone 2024 1) ! 6 = None"
  by (simp add: sample_last_row)

text \<open>
  C10. Every week row of the grid, the first and the last included, has exactly seven
  slots, so the length of the flattened grid is a multiple of seven; this holds for every
  view, valid or not. In a valid view the slots before the month's first day and the slots
  after its last day hold the empty value.
\<close>

theorem monthDays_rows_of_seven:
  "(\<forall>w \<in> set (monthDays tz y m). length w = 7)
   \<and> length (concat (monthDays tz y m)) = 7 * length (monthDays tz y m)
   \<and> length (concat (monthDays tz y m)) mod 7 = 0
   \<and> (tz_ok tz \<and> valid_view y m \<longrightarrow>
        (\<forall>i. i < nat (WeekDay (MakeDay y m 1)) \<longrightarrow> hd (monthDays tz y m) ! i = None)
      \<and> (\<forall>i. nat ((days_in_month y m + WeekDay (MakeDay y m 1) - 1) mod 7) < i \<and> i < 7 \<longrightarrow>
             last (monthDays tz y m) ! i = None))"
proof -
  have rows: "\<forall>w \<in> set (monthDays tz y m). length w = 7"
    using monthDays_rows [of tz y m] by simp
  have len: "length (concat ws) = 7 * length ws" if "\<forall>w \<in> set ws. length w = 7"
    for ws :: "slot list list"
    using that by (induction ws) simp_all
  have flat: "length (concat (monthDays tz y m)) = 7 * length (monthDays tz y m)"
    using len [OF rows] .
  have pad: "(\<forall>i. i < nat (WeekDay (MakeDay y m 1)) \<longrightarrow> hd (monthDays tz y m) ! i = None)
      \<and> (\<forall>i. nat ((days_in_month y m + WeekDay (MakeDay y m 1) - 1) mod 7) < i \<and> i < 7 \<longrightarrow>
             last (monthDays tz y m) ! i = None)"
    if ok: "tz_ok tz" "valid_view y m"
  proof -
    define r where "r = (days_in_month y m + WeekDay (MakeDay y m 1) - 1) mod 7"
    have r: "0 \<le> r" "r \<le> 6" by (simp_all add: r_def)
    have D: "28 \<le> days_in_month y m" by (rule days_in_month_ge)
    have l: "length (map (\<lambda>d. Some (date_string y (m + 1) d)) [days_in_month y m - r..days_in_month y m])
        = nat r + 1"
      using r by simp
    have "last (monthDays tz y m) ! i = None" if "nat r < i" "i < 7" for i
      unfolding monthDays_last_row_cells [OF ok] r_def [symmetric]
      using that r by (simp add: nth_append l del: length_map)
    moreover have "hd (monthDays tz y m) ! i = None" if "i < nat (WeekDay (MakeDay y m 1))" for i
      unfolding monthDays_first_row [OF ok] using that by (simp add: nth_append)
    ultimately show ?thesis
      unfolding r_def by blast
  qed
  show ?thesis
    using rows flat pad by simp
qed

theorem monthDays_rows_of_seven_witness:
  "tz_ok dst_zone \<and> valid_view 2024 1
   \<and> length (concat (monthDays dst_zone 2024 1)) mod 7 = 0
   \<and> length (hd (monthDays dst_zone 2024 1)) = 7
   \<and> hd (monthDays dst_zone 2024 1) ! 3 = None
   \<and> last (monthDays dst_zone 2024 1) ! 6 = None
   \<and> length (concat (monthDays dst_zone 300000 0)) mod 7 = 0"
proof -
  note t = monthDays_rows_of_seven [of dst_zone 2024 1, unfolded sample_view(2,3)]
  have "nat ((29 + 4 - 1) mod 7) = 4" by simp
  then have a: "hd (monthDays dst_zone 2024 1) ! 3 = None" "last (monthDays dst_zone 2024 1) ! 6 = None"
    using t dst_zone_ok sample_view(1) by simp_all
  have b: "length (concat (monthDays dst_zone 2024 1)) mod 7 = 0"
    using t by simp
  have c: "length (concat (monthDays dst_zone 300000 0)) mod 7 = 0"
    using monthDays_rows_of_seven [of dst_zone 300000 0] by simp
  have d: "length (hd (monthDays dst_zone 2024 1)) = 7"
    by (simp add: sample_first_row)
  show ?thesis
    using a b c d dst_zone_ok sample_view(1) by simp
qed

section \<open>Formatting and parsing\<close>

text \<open>
  C5 (as the code has it). \<^verbatim>\<open>parseYMD(formatYMD(d))\<close> is \<open>d\<close> for every local-midnight date \<open>d\<close>
  whose year is 100 or later, and \<^verbatim>\<open>formatYMD\<close> returns a string argument as it is, so that
  \<^verbatim>\<open>formatYMD(formatYMD(x))\<close> is \<^verbatim>\<open>formatYMD(x)\<close> for every \<open>x\<close>. The Date \<open>LocalDay n\<close> is within the
  range of time values.
\<close>

theorem parse_format_roundtrip:
  assumes "\<bar>valueOf tz n\<bar> \<le> 8640000000000000" "100 \<le> YearFromDay n"
  shows "parseYMD tz (formatYMD (DateObj (LocalDay n))) = LocalDay n
       \<and> formatYMD (Str (formatYMD x)) = formatYMD x"
proof -
  have "0 \<le> YearFromDay n" "0 \<le> MonthFromDay n + 1" "0 \<le> DateFromDay n"
    using assms(2) MonthFromDay_range(1) [of n] DateFromDay_range(1) [of n] by simp_all
  then have "parseYMD tz (formatYMD (DateObj (LocalDay n)))
      = NewDate tz (Some (YearFromDay n)) (Some (MonthFromDay n)) (Some (DateFromDay n))"
    by (simp add: formatYMD_LocalDay parseYMD_date_string)
  moreover have "(if 0 \<le> YearFromDay n \<and> YearFromDay n \<le> 99 then 1900 + YearFromDay n
      else YearFromDay n) = YearFromDay n"
    using assms(2) by simp
  then have "NewDate tz (Some (YearFromDay n)) (Some (MonthFromDay n)) (Some (DateFromDay n))
      = LocalDay n"
    unfolding NewDate_def using assms(1) by (simp add: MakeDay_of_fields)
  moreover have "formatYMD (Str (formatYMD x)) = formatYMD x"
    by (simp add: formatYMD_def)
  ultimately show ?thesis by simp
qed

theorem parse_format_roundtrip_witness:
  "\<bar>valueOf dst_zone 19783\<bar> \<le> 8640000000000000 \<and> 100 \<le> YearFromDay 19783
   \<and> formatYMD (DateObj (LocalDay 19783)) = ''2024-03-01''
   \<and> parseYMD dst_zone (formatYMD (DateObj (LocalDay 19783))) = LocalDay 19783
   \<and> formatYMD (Str (formatYMD (DateObj (LocalDay 19783)))) = formatYMD (DateObj (LocalDay 19783))"
proof -
  have f: "YearFromDay 19783 = 2024" "MonthFromDay 19783 = 2" "DateFromDay 19783 = 1"
    using YearFromDay_MakeDay [of 2 1 2024] MonthFromDay_MakeDay [of 2 1 2024]
      DateFromDay_MakeDay [of 2 1 2024]
    by (simp_all add: sample_days days_in_month_def)
  have v: "\<bar>valueOf dst_zone 19783\<bar> \<le> 8640000000000000"
    by (simp add: valueOf_def msPerDay_def dst_zone_def)
  have y: "100 \<le> YearFromDay 19783"
    by (simp add: f)
  have s: "formatYMD (DateObj (LocalDay 19783)) = ''2024-03-01''"
    by (simp add: formatYMD_LocalDay f sample_strings)
  show ?thesis
    using parse_format_roundtrip [OF v y, of "DateObj (LocalDay 19783)"] v y s by simp
qed

text \<open>
  The claim as written covers every local-midnight date. The first day of the year 50 is
  written as "50-01-01" and read back as the first day of 1950.
\<close>

theorem parse_format_year_50:
  "MakeDay 50 0 1 = - 701265
   \<and> \<bar>valueOf dst_zone (- 701265)\<bar> \<le> 8640000000000000
   \<and> formatYMD (DateObj (LocalDay (- 701265))) = ''50-01-01''
   \<and> parseYMD dst_zone ''50-01-01'' = LocalDay (- 7305)
   \<and> parseYMD dst_zone (formatYMD (DateObj (LocalDay (- 701265)))) \<noteq> LocalDay (- 701265)"
proof -
  have n: "MakeDay 50 0 1 = - 701265"
    by (simp add: MakeDay_def DayFromYear_def MonthStart_def)
  have f: "YearFromDay (- 701265) = 50" "MonthFromDay (- 701265) = 0" "DateFromDay (- 701265) = 1"
    using YearFromDay_MakeDay [of 0 1 50] MonthFromDay_MakeDay [of 0 1 50]
      DateFromDay_MakeDay [of 0 1 50]
    by (simp_all add: n days_in_month_def)
  have v: "\<bar>valueOf dst_zone (- 701265)\<bar> \<le> 8640000000000000"
    by (simp add: valueOf_def msPerDay_def dst_zone_def)
  have s: "formatYMD (DateObj (LocalDay (- 701265))) = ''50-01-01''"
    by (simp add: formatYMD_LocalDay f date_string_def String_def show_nat.simps digit_char_def
        padStart_def)
  have "''50-01-01'' = date_string 50 1 1"
    by (simp add: date_string_def String_def show_nat.simps digit_char_def padStart_def)
  then have "parseYMD dst_zone ''50-01-01'' = NewDate dst_zone (Some 50) (Some 0) (Some 1)"
    by (simp add: parseYMD_date_string)
  also have "\<dots> = LocalDay (- 7305)"
    by (simp add: NewDate_def MakeDay_def DayFromYear_def MonthStart_def valueOf_def msPerDay_def
        dst_zone_def)
  finally have p: "parseYMD dst_zone ''50-01-01'' = LocalDay (- 7305)" .
  show ?thesis
    using n v s p by simp
qed

section \<open>Selection state machine\<close>

lemma onDayClick_padding: "onDayClick tz None st = st"
  by (simp add: onDayClick_def truthy_def)

lemma onDayClick_first:
  assumes "truthy (Some d)" "\<not> truthy (selectStart st)"
  shows "onDayClick tz (Some d) st = st\<lparr>selectStart := Some d, selectEnd := None, message := None\<rparr>"
  using assms by (simp add: onDayClick_def)

lemma onDayClick_second:
  assumes "tz_ok tz" "parseYMD tz d = LocalDay n" "selectStart st = Some s" "parseYMD tz s = LocalDay k"
    "\<not> truthy (selectEnd st)"
  shows "onDayClick tz (Some d) st =
    (if n < k then st\<lparr>selectEnd := Some s, selectStart := Some d\<rparr> else st\<lparr>selectEnd := Some d\<rparr>)"
  using assms parseYMD_truthy [OF assms(2)] parseYMD_truthy [OF assms(4)]
  by (simp add: onDayClick_def parse_opt_def date_lt_days)

lemma onDayClick_third:
  assumes "truthy (Some d)" "truthy (selectStart st)" "truthy (selectEnd st)"
  shows "onDayClick tz (Some d) st = st\<lparr>selectStart := Some d, selectEnd := None\<rparr>"
  using assms by (simp add: onDayClick_def)

text \<open>Every click on a slot of the grid keeps the selection normalized.\<close>

lemma onDayClick_normalized:
  assumes "tz_ok tz" "clickable tz d" "sel_normalized tz st"
  shows "sel_normalized tz (onDayClick tz d st)"
proof (cases d)
  case None
  then show ?thesis using assms(3) by (simp add: onDayClick_padding)
next
  case (Some s)
  then obtain n where n: "parseYMD tz s = LocalDay n"
    using assms(2) by (cases "parseYMD tz s") (simp_all add: clickable_def)
  note t = parseYMD_truthy [OF n]
  show ?thesis
  proof (cases "truthy (selectStart st)")
    case False
    then show ?thesis
      using t n by (simp add: Some onDayClick_first sel_normalized_def parse_opt_def truthy_def)
  next
    case True
    then obtain s0 where s0: "selectStart st = Some s0"
      by (cases "selectStart st") (simp_all add: truthy_def)
    from True assms(3) obtain k where k: "parseYMD tz s0 = LocalDay k"
      by (cases "parseYMD tz s0") (simp_all add: sel_normalized_def s0 parse_opt_def)
    show ?thesis
    proof (cases "truthy (selectEnd st)")
      case False
      then show ?thesis
        using t n k parseYMD_truthy [OF k]
        by (simp add: Some onDayClick_second [OF assms(1) n s0 k False] sel_normalized_def
            parse_opt_def s0)
    next
      case e: True
      show ?thesis
        using t n
        by (simp add: Some onDayClick_third [OF t True e] sel_normalized_def parse_opt_def
            truthy_def)
    qed
  qed
qed

lemma clicks_normalized:
  assumes "tz_ok tz" "list_all (clickable tz) ds" "sel_normalized tz st"
  shows "sel_normalized tz (clicks tz ds st)"
  using assms(2,3)
  by (induction ds arbitrary: st) (simp_all add: onDayClick_normalized [OF assms(1)])

text \<open>
  C2. From the Empty state the clicks \<open>[d1, d2]\<close> with \<open>d1 < d2\<close> give start \<open>d1\<close> and end
  \<open>d2\<close>, and the reversed clicks \<open>[d2, d1]\<close> give the same normalized selection; a click on
  \<open>d3\<close> in a Complete state gives start \<open>d3\<close> and no end; a click on a padding slot changes
  nothing in any state. The dates are strings read as the calendar days \<open>n1 < n2\<close>.
\<close>

theorem selection_machine:
  assumes "tz_ok tz" "parseYMD tz d1 = LocalDay n1" "parseYMD tz d2 = LocalDay n2" "n1 < n2"
    and "selectStart st = None" "selectEnd st = None"
  shows "selectStart (clicks tz [Some d1, Some d2] st) = Some d1
       \<and> selectEnd (clicks tz [Some d1, Some d2] st) = Some d2
       \<and> selectStart (clicks tz [Some d2, Some d1] st) = Some d1
       \<and> selectEnd (clicks tz [Some d2, Some d1] st) = Some d2
       \<and> (truthy (Some d3) \<longrightarrow>
            selectStart (clicks tz [Some d1, Some d2, Some d3] st) = Some d3
          \<and> selectEnd (clicks tz [Some d1, Some d2, Some d3] st) = None)
       \<and> (truthy (Some d3) \<and> truthy (selectStart c) \<and> truthy (selectEnd c) \<longrightarrow>
            selectStart (onDayClick tz (Some d3) c) = Some d3
          \<and> selectEnd (onDayClick tz (Some d3) c) = None)
       \<and> onDayClick tz None c = c"
proof -
  note t1 = parseYMD_truthy [OF assms(2)] and t2 = parseYMD_truthy [OF assms(3)]
  have empty: "\<not> truthy (selectStart st)" "\<not> truthy (selectEnd st)"
    using assms(5,6) by (simp_all add: truthy_def)
  define a where "a = onDayClick tz (Some d1) st"
  define b where "b = onDayClick tz (Some d2) st"
  have a: "selectStart a = Some d1" "selectEnd a = None"
    by (simp_all add: a_def onDayClick_first [OF t1 empty(1)])
  have b: "selectStart b = Some d2" "selectEnd b = None"
    by (simp_all add: b_def onDayClick_first [OF t2 empty(1)])
  have a_end: "\<not> truthy (selectEnd a)" and b_end: "\<not> truthy (selectEnd b)"
    using a b by (simp_all add: truthy_def)
  have ab: "onDayClick tz (Some d2) a = a\<lparr>selectEnd := Some d2\<rparr>"
    using onDayClick_second [OF assms(1,3) a(1) assms(2) a_end] assms(4) by simp
  have ba: "onDayClick tz (Some d1) b = b\<lparr>selectEnd := Some d2, selectStart := Some d1\<rparr>"
    using onDayClick_second [OF assms(1,2) b(1) assms(3) b_end] assms(4) by simp
  have c12: "clicks tz [Some d1, Some d2] st = a\<lparr>selectEnd := Some d2\<rparr>"
    by (simp add: a_def [symmetric] ab)
  have c21: "clicks tz [Some d2, Some d1] st = b\<lparr>selectEnd := Some d2, selectStart := Some d1\<rparr>"
    by (simp add: b_def [symmetric] ba)
  have third: "selectStart (onDayClick tz (Some d3) s) = Some d3 \<and> selectEnd (onDayClick tz (Some d3) s) = None"
    if "truthy (Some d3)" "truthy (selectStart s)" "truthy (selectEnd s)" for s
    by (simp add: onDayClick_third [OF that])
  have c123: "clicks tz [Some d1, Some d2, Some d3] st = onDayClick tz (Some d3) (a\<lparr>selectEnd := Some d2\<rparr>)"
    by (simp add: a_def [symmetric] ab)
  have "truthy (selectStart (a\<lparr>selectEnd := Some d2\<rparr>))" "truthy (selectEnd (a\<lparr>selectEnd := Some d2\<rparr>))"
    using a t1 t2 by simp_all
  then have "truthy (Some d3) \<longrightarrow>
            selectStart (clicks tz [Some d1, Some d2, Some d3] st) = Some d3
          \<and> selectEnd (clicks tz [Some d1, Some d2, Some d3] st) = None"
    unfolding c123 using third by blast
  moreover have "selectStart (clicks tz [Some d1, Some d2] st) = Some d1"
    "selectEnd (clicks tz [Some d1, Some d2] st) = Some d2"
    unfolding c12 using a by simp_all
  moreover have "selectStart (clicks tz [Some d2, Some d1] st) = Some d1"
    "selectEnd (clicks tz [Some d2, Some d1] st) = Some d2"
    unfolding c21 by simp_all
  ultimately show ?thesis
    using third [of c] onDayClick_padding [of tz c] by blast
qed

theorem selection_machine_witness:
  "tz_ok dst_zone
   \<and> parseYMD dst_zone ''2024-03-01'' = LocalDay 19783
   \<and> parseYMD dst_zone ''2024-04-01'' = LocalDay 19814
   \<and> (19783 :: int) < 19814
   \<and> selectStart sample_app = None \<and> selectEnd sample_app = None
   \<and> selectStart (clicks dst_zone [Some ''2024-03-01'', Some ''2024-04-01''] sample_app) = Some ''2024-03-01''
   \<and> selectEnd (clicks dst_zone [Some ''2024-03-01'', Some ''2024-04-01''] sample_app) = Some ''2024-04-01''
   \<and> selectStart (clicks dst_zone [Some ''2024-04-01'', Some ''2024-03-01''] sample_app) = Some ''2024-03-01''
   \<and> selectEnd (clicks dst_zone [Some ''2024-04-01'', Some ''2024-03-01''] sample_app) = Some ''2024-04-01''
   \<and> selectStart (clicks dst_zone [Some ''2024-03-01'', Some ''2024-04-01'', Some ''2024-01-15''] sample_app)
       = Some ''2024-01-15''
   \<and> selectEnd (clicks dst_zone [Some ''2024-03-01'', Some ''2024-04-01'', Some ''2024-01-15''] sample_app)
       = None"
proof -
  note p = sample_parse(5,6) [OF dst_zone_ok]
  have e: "selectStart sample_app = None" "selectEnd sample_app = None"
    by (simp_all add: sample_app_def)
  have t: "truthy (Some ''2024-01-15'')"
    by (simp add: truthy_def)
  have lt: "(19783 :: int) < 19814" by simp
  show ?thesis
    using selection_machine [OF dst_zone_ok p(1) p(2) lt e, of "''2024-01-15''" sample_app]
      dst_zone_ok p e t
    by simp
qed

section \<open>Assignment, cascade and lookup\<close>

lemma tryAssign_not_ready:
  assumes "\<not> assign_ready st"
  shows "\<exists>msg. tryAssign r newId (st, srv) = (st\<lparr>message := Some msg\<rparr>, srv)"
  using assms by (auto simp add: tryAssign_def assign_ready_def)

lemma tryAssign_ready:
  assumes "assign_ready st"
  obtains e s t where "assignEmployeeId st = Some e" "selectStart st = Some s" "selectEnd st = Some t"
    "tryAssign r newId (st, srv) =
       (case addDoc r newId (vacations_col srv) \<lparr>employeeId = e, vac_start = s, vac_end = t\<rparr> of
          Inr col \<Rightarrow> ((clearSelection st)\<lparr>message := Some MsgAssigned\<rparr>, srv\<lparr>vacations_col := col\<rparr>)
        | Inl _ \<Rightarrow> (st\<lparr>message := Some MsgAssignFailed\<rparr>, srv))"
proof -
  from assms obtain e s t where v: "assignEmployeeId st = Some e" "selectStart st = Some s"
    "selectEnd st = Some t"
    by (cases "assignEmployeeId st"; cases "selectStart st"; cases "selectEnd st")
      (simp_all add: assign_ready_def truthy_def)
  show thesis
    by (rule that [OF v]) (use assms in \<open>simp add: tryAssign_def assign_ready_def v\<close>)
qed

text \<open>
  C3. The assign operation changes the store if and only if the selection is Complete, an
  employee id is chosen and the store is available (and the write resolves). When one of
  the preconditions fails it only sets a user message: store and selection stay as they
  were. On success it appends exactly one Vacation record with the chosen employee id and
  the selected start and end, whatever vacations the store already holds, and resets the
  selection to Empty. The selection being normalized, the record has start not after end.
\<close>

theorem tryAssign_effect:
  assumes "tryAssign r newId (st, srv) = (st', srv')"
  shows "(srv' \<noteq> srv \<longleftrightarrow> assign_ready st \<and> r = Resolves)
       \<and> (\<not> assign_ready st \<longrightarrow> srv' = srv \<and> (\<exists>msg. st' = st\<lparr>message := Some msg\<rparr>))
       \<and> (assign_ready st \<and> r = Resolves \<longrightarrow>
            (\<exists>e s t. assignEmployeeId st = Some e \<and> selectStart st = Some s \<and> selectEnd st = Some t
               \<and> vacations_col srv' =
                   vacations_col srv @ [(newId, \<lparr>employeeId = e, vac_start = s, vac_end = t\<rparr>)]
               \<and> (sel_normalized tz st \<longrightarrow>
                     (\<exists>a b. parseYMD tz s = LocalDay a \<and> parseYMD tz t = LocalDay b \<and> a \<le> b)))
          \<and> employees_col srv' = employees_col srv
          \<and> selectStart st' = None \<and> selectEnd st' = None \<and> assignEmployeeId st' = None)"
proof (cases "assign_ready st")
  case False
  then show ?thesis
    using tryAssign_not_ready [OF False, of r newId srv] assms by auto
next
  case True
  then obtain e s t where v: "assignEmployeeId st = Some e" "selectStart st = Some s"
    "selectEnd st = Some t"
    and run: "tryAssign r newId (st, srv) =
       (case addDoc r newId (vacations_col srv) \<lparr>employeeId = e, vac_start = s, vac_end = t\<rparr> of
          Inr col \<Rightarrow> ((clearSelection st)\<lparr>message := Some MsgAssigned\<rparr>, srv\<lparr>vacations_col := col\<rparr>)
        | Inl _ \<Rightarrow> (st\<lparr>message := Some MsgAssignFailed\<rparr>, srv))"
    by (rule tryAssign_ready)
  show ?thesis
  proof (cases r)
    case Rejects
    then have "srv' = srv"
      using run assms by (simp add: addDoc_def)
    then show ?thesis using Rejects True by simp
  next
    case Resolves
    then have st': "st' = (clearSelection st)\<lparr>message := Some MsgAssigned\<rparr>"
      and srv': "srv' = srv\<lparr>vacations_col :=
          vacations_col srv @ [(newId, \<lparr>employeeId = e, vac_start = s, vac_end = t\<rparr>)]\<rparr>"
      using run assms by (simp_all add: addDoc_def)
    have "vacations_col srv' \<noteq> vacations_col srv"
      by (simp add: srv')
    then have changed: "srv' \<noteq> srv" by auto
    have norm: "\<exists>a b. parseYMD tz s = LocalDay a \<and> parseYMD tz t = LocalDay b \<and> a \<le> b"
      if "sel_normalized tz st"
      using that True
      by (cases "parseYMD tz s"; cases "parseYMD tz t")
        (simp_all add: sel_normalized_def assign_ready_def v parse_opt_def)
    show ?thesis
      using True Resolves changed norm v
      by (simp add: st' srv' clearSelection_def)
  qed
qed

theorem tryAssign_effect_witness:
  "tryAssign Resolves ''v9''
      (sample_app\<lparr>selectStart := Some ''2024-01-10'', selectEnd := Some ''2024-01-15'',
         assignEmployeeId := Some ''e1''\<rparr>, sample_store)
    = (sample_app\<lparr>message := Some MsgAssigned\<rparr>,
       sample_store\<lparr>vacations_col := vacations_col sample_store @
         [(''v9'', \<lparr>employeeId = ''e1'', vac_start = ''2024-01-10'', vac_end = ''2024-01-15''\<rparr>)]\<rparr>)
   \<and> sample_store\<lparr>vacations_col := vacations_col sample_store @
         [(''v9'', \<lparr>employeeId = ''e1'', vac_start = ''2024-01-10'', vac_end = ''2024-01-15''\<rparr>)]\<rparr>
       \<noteq> sample_store
   \<and> tryAssign Resolves ''v9'' (sample_app, sample_store)
       = (sample_app\<lparr>message := Some MsgSelectRange\<rparr>, sample_store)"
proof -
  let ?st = "sample_app\<lparr>selectStart := Some ''2024-01-10'', selectEnd := Some ''2024-01-15'',
         assignEmployeeId := Some ''e1''\<rparr>"
  let ?srv = "sample_store\<lparr>vacations_col := vacations_col sample_store @
         [(''v9'', \<lparr>employeeId = ''e1'', vac_start = ''2024-01-10'', vac_end = ''2024-01-15''\<rparr>)]\<rparr>"
  have run: "tryAssign Resolves ''v9'' (?st, sample_store) = (sample_app\<lparr>message := Some MsgAssigned\<rparr>, ?srv)"
    by (simp add: tryAssign_def sample_app_def truthy_def addDoc_def clearSelection_def)
  have run0: "tryAssign Resolves ''v9'' (sample_app, sample_store)
       = (sample_app\<lparr>message := Some MsgSelectRange\<rparr>, sample_store)"
    by (simp add: tryAssign_def sample_app_def truthy_def)
  have ready: "assign_ready ?st"
    by (simp add: assign_ready_def sample_app_def truthy_def)
  show ?thesis
    using tryAssign_effect [OF run, of dst_zone] run run0 ready by simp
qed

lemma resolve_deletes_vacations:
  "vacations_col (resolve_deletes ds srv) = filter (\<lambda>(i, _). i \<notin> set ds) (vacations_col srv)"
proof (induction ds arbitrary: srv)
  case Nil
  show ?case by simp
next
  case (Cons d ds)
  have "filter (\<lambda>(i, _). i \<notin> set ds) (filter (\<lambda>(i, _). i \<noteq> d) xs)
      = filter (\<lambda>(i, _). i \<notin> set (d # ds)) xs" for xs :: "vacation_data collection"
    by (induction xs) auto
  then show ?case
    by (simp add: Cons.IH deleteDoc_def)
qed

lemma resolve_deletes_employees:
  "employees_col (resolve_deletes ds srv) = employees_col srv"
  by (induction ds arbitrary: srv) (simp_all add: deleteDoc_def)

text \<open>
  C4. For every employee id, the remove-employee operation first deletes the Employee
  record and then issues one deletion for every Vacation record whose \<open>employeeId\<close> matches
  it, each on its own; once all issued deletions have resolved, in whatever order, no
  vacation that refers to that employee id remains. The store handle is set and the awaited
  requests resolve.
\<close>

theorem removeEmployee_cascade:
  assumes "db st" "removeEmployee Resolves Resolves st empId srv = (srv1, issued)"
    and "set ds = set issued"
  shows "employees_col srv1 = filter (\<lambda>(i, _). i \<noteq> empId) (employees_col srv)
       \<and> vacations_col srv1 = vacations_col srv
       \<and> issued = map fst (filter (\<lambda>(_, v). employeeId v = empId) (vacations_col srv))
       \<and> empId \<notin> fst ` set (employees_col (resolve_deletes ds srv1))
       \<and> filter (\<lambda>(_, v). employeeId v = empId) (vacations_col (resolve_deletes ds srv1)) = []"
proof -
  have run: "removeEmployee Resolves Resolves st empId srv =
      (srv\<lparr>employees_col := filter (\<lambda>(i, _). i \<noteq> empId) (employees_col srv)\<rparr>,
       map fst (filter (\<lambda>(_, v). employeeId v = empId) (vacations_col srv)))"
    using assms(1)
    by (simp add: removeEmployee_def deleteDoc_def getDocs_where_employeeId_def Let_def)
  have srv1: "srv1 = srv\<lparr>employees_col := filter (\<lambda>(i, _). i \<noteq> empId) (employees_col srv)\<rparr>"
    and issued: "issued = map fst (filter (\<lambda>(_, v). employeeId v = empId) (vacations_col srv))"
    using assms(2) unfolding run by simp_all
  have covered: "i \<in> set ds" if "(i, v) \<in> set (vacations_col srv)" "employeeId v = empId" for i v
  proof -
    have "(i, v) \<in> set (filter (\<lambda>(_, v). employeeId v = empId) (vacations_col srv))"
      using that by simp
    then have "fst (i, v) \<in> set issued"
      unfolding issued set_map by (rule imageI)
    then show ?thesis using assms(3) by simp
  qed
  have gone: "filter (\<lambda>(_, v). employeeId v = empId) (vacations_col (resolve_deletes ds srv1)) = []"
    unfolding resolve_deletes_vacations filter_empty_conv
  proof
    fix x
    assume x: "x \<in> set (filter (\<lambda>(i, _). i \<notin> set ds) (vacations_col srv1))"
    obtain i v where iv: "x = (i, v)" by (cases x)
    have "(i, v) \<in> set (vacations_col srv)" "i \<notin> set ds"
      using x by (simp_all add: iv srv1)
    then have "employeeId v \<noteq> empId"
      using covered by blast
    then show "\<not> (case x of (_, v) \<Rightarrow> employeeId v = empId)"
      by (simp add: iv)
  qed
  have emp: "empId \<notin> fst ` set (employees_col (resolve_deletes ds srv1))"
    unfolding resolve_deletes_employees by (auto simp add: srv1)
  have "employees_col srv1 = filter (\<lambda>(i, _). i \<noteq> empId) (employees_col srv)"
    "vacations_col srv1 = vacations_col srv"
    by (simp_all add: srv1)
  then show ?thesis
    using issued gone emp by blast
qed

theorem removeEmployee_cascade_witness:
  "db sample_app
   \<and> removeEmployee Resolves Resolves sample_app ''e1'' sample_store
       = (sample_store\<lparr>employees_col := [(''e2'', \<lparr>emp_name = ''Luis'', emp_color = ''blue''\<rparr>)]\<rparr>,
          [''v1'', ''v3''])
   \<and> set [''v3'', ''v1''] = set [''v1'', ''v3'']
   \<and> filter (\<lambda>(_, v). employeeId v = ''e1'')
        (vacations_col (resolve_deletes [''v3'', ''v1'']
           (sample_store\<lparr>employees_col := [(''e2'', \<lparr>emp_name = ''Luis'', emp_color = ''blue''\<rparr>)]\<rparr>))) = []
   \<and> vacations_col (resolve_deletes [''v3'', ''v1'']
           (sample_store\<lparr>employees_col := [(''e2'', \<lparr>emp_name = ''Luis'', emp_color = ''blue''\<rparr>)]\<rparr>))
       = [(''v2'', \<lparr>employeeId = ''e2'', vac_start = ''2024-01-12'', vac_end = ''2024-01-14''\<rparr>)]"
proof -
  have d: "db sample_app"
    by (simp add: sample_app_def)
  have run: "removeEmployee Resolves Resolves sample_app ''e1'' sample_store
       = (sample_store\<lparr>employees_col := [(''e2'', \<lparr>emp_name = ''Luis'', emp_color = ''blue''\<rparr>)]\<rparr>,
          [''v1'', ''v3''])"
    by (simp add: removeEmployee_def sample_app_def sample_store_def deleteDoc_def
        getDocs_where_employeeId_def)
  have s: "set [''v3'', ''v1''] = set [''v1'', ''v3'']"
    by auto
  have rest: "vacations_col (resolve_deletes [''v3'', ''v1'']
           (sample_store\<lparr>employees_col := [(''e2'', \<lparr>emp_name = ''Luis'', emp_color = ''blue''\<rparr>)]\<rparr>))
       = [(''v2'', \<lparr>employeeId = ''e2'', vac_start = ''2024-01-12'', vac_end = ''2024-01-14''\<rparr>)]"
    by (simp add: sample_store_def deleteDoc_def)
  show ?thesis
    using removeEmployee_cascade [OF d run s] d run s rest by simp
qed

text \<open>
  C9 (as the code has it). For every employee id that no employee of the current list has,
  the lookup returns a placeholder record with name "Desconocido" and color "gray" (and no
  id) rather than failing; for every id that is present it returns the first employee
  record of the list with that id.
\<close>

theorem employeeById_lookup:
  "(ident \<notin> obj_id ` set (employees st) \<or> ident = None \<longrightarrow>
      employeeById st ident = \<lparr>obj_id = None, obj_name = ''Desconocido'', obj_color = ''gray''\<rparr>)
   \<and> (ident \<in> obj_id ` set (employees st) \<and> ident \<noteq> None \<longrightarrow>
      employeeById st ident \<in> set (employees st)
      \<and> obj_id (employeeById st ident) = ident
      \<and> employeeById st ident = hd (filter (\<lambda>e. obj_id e = ident) (employees st)))"
proof -
  have find_hd: "find P xs = (case filter P xs of [] \<Rightarrow> None | x # _ \<Rightarrow> Some x)" for P and xs :: "employee list"
    by (induction xs) simp_all
  show ?thesis
  proof (cases "filter (\<lambda>e. ident \<noteq> None \<and> obj_id e = ident) (employees st)")
    case Nil
    then have "ident \<notin> obj_id ` set (employees st) \<or> ident = None"
      by (auto simp add: filter_empty_conv)
    then show ?thesis
      using Nil by (auto simp add: employeeById_def find_hd)
  next
    case (Cons e es)
    then have "e \<in> set (filter (\<lambda>e. ident \<noteq> None \<and> obj_id e = ident) (employees st))"
      by simp
    then have e: "e \<in> set (employees st)" "obj_id e = ident" "ident \<noteq> None"
      by simp_all
    have "filter (\<lambda>e. ident \<noteq> None \<and> obj_id e = ident) (employees st)
        = filter (\<lambda>e. obj_id e = ident) (employees st)"
      using e(3) by simp
    then have h: "hd (filter (\<lambda>e. obj_id e = ident) (employees st)) = e"
      using Cons by simp
    have r: "employeeById st ident = e"
      using Cons by (simp add: employeeById_def find_hd)
    have m: "ident \<in> obj_id ` set (employees st)"
      using e(1,2) by (metis image_eqI)
    show ?thesis
      unfolding r h using e(1,2) m by (simp add: e(3))
  qed
qed

theorem employeeById_lookup_witness:
  "employeeById sample_app (Some ''e2'') = \<lparr>obj_id = Some ''e2'', obj_name = ''Luis'', obj_color = ''blue''\<rparr>
   \<and> Some ''e2'' \<in> obj_id ` set (employees sample_app)
   \<and> employeeById sample_app (Some ''e7'') = \<lparr>obj_id = None, obj_name = ''Desconocido'', obj_color = ''gray''\<rparr>
   \<and> Some ''e7'' \<notin> obj_id ` set (employees sample_app)"
proof -
  have a: "Some ''e2'' \<in> obj_id ` set (employees sample_app)"
    and b: "Some ''e7'' \<notin> obj_id ` set (employees sample_app)"
    by (simp_all add: sample_app_def)
  have h: "hd (filter (\<lambda>e. obj_id e = Some ''e2'') (employees sample_app))
      = \<lparr>obj_id = Some ''e2'', obj_name = ''Luis'', obj_color = ''blue''\<rparr>"
    by (simp add: sample_app_def)
  show ?thesis
    using employeeById_lookup [of "Some ''e2''" sample_app] employeeById_lookup [of "Some ''e7''" sample_app]
      a b h
    by simp
qed

text \<open>The claim as written names the placeholder "Unknown"; the code's placeholder is not that.\<close>

theorem employeeById_not_Unknown:
  "obj_name (employeeById sample_app (Some ''e7'')) \<noteq> ''Unknown''"
  by (simp add: employeeById_def sample_app_def)

end
